theory Spec2Isabelle
  imports Main
begin

section \<open>Positions and pieces (report.py, ast.py)\<close>

text \<open>
  A position is a line number with an optional file name and an optional column
  (\<^verbatim>\<open>report.Position\<close>). The file name \<open>None\<close> stands for standard input.
\<close>

record position =
  lineno :: nat
  fname :: "string option"
  column :: "nat option"

definition Position :: "nat \<Rightarrow> string option \<Rightarrow> nat option \<Rightarrow> position" where
  "Position ln fnm col = \<lparr>lineno = ln, fname = fnm, column = col\<rparr>"

text \<open>The ten piece kinds of \<^verbatim>\<open>ast.py\<close> (\<^verbatim>\<open>NUM_PIECES = 10\<close>).\<close>

datatype piece_kind =
  PIECE_COMMA | PIECE_COMMENT | PIECE_EOF | PIECE_EOL | PIECE_IDENTIFIER
  | PIECE_PARCLOSE | PIECE_PAROPEN | PIECE_SPACES | PIECE_STRING | PIECE_TEXT

text \<open>
  The two piece classes: \<^verbatim>\<open>SubstrPiece(kind, pos, length, line_text)\<close> borrows its text
  from the line it was cut from, \<^verbatim>\<open>StrPiece(kind, pos, text)\<close> owns its text.
\<close>

datatype piece =
  SubstrPiece piece_kind position nat string
  | StrPiece piece_kind position string

fun kind :: "piece \<Rightarrow> piece_kind" where
  "kind (SubstrPiece k p n line_text) = k"
| "kind (StrPiece k p t) = k"

fun pos :: "piece \<Rightarrow> position" where
  "pos (SubstrPiece k p n line_text) = p"
| "pos (StrPiece k p t) = p"

text \<open>
  \<^verbatim>\<open>get_text\<close>: the slice \<^verbatim>\<open>line_text[pos.column : pos.column + length]\<close> of a
  \<^verbatim>\<open>SubstrPiece\<close> (whose constructor asserts that the column is present), the stored text
  of a \<^verbatim>\<open>StrPiece\<close>.
\<close>

fun get_text :: "piece \<Rightarrow> string" where
  "get_text (SubstrPiece k p n line_text) =
     (case column p of None \<Rightarrow> [] | Some c \<Rightarrow> take n (drop c line_text))"
| "get_text (StrPiece k p t) = t"

section \<open>The lexer (tokenize.py)\<close>

subsection \<open>Character classes and the three regular expressions\<close>

definition NL :: char where "NL = CHR 0x0A"
definition TAB :: char where "TAB = CHR 0x09"
definition DQUOTE :: char where "DQUOTE = CHR 0x22"
definition BACKSLASH :: char where "BACKSLASH = CHR 0x5C"

definition space_char :: "char \<Rightarrow> bool" where
  "space_char c = (c = CHR '' '' \<or> c = TAB)"

definition ident_start :: "char \<Rightarrow> bool" where
  "ident_start c = (c \<in> set ''ABCDEFGHIJKLMNOPQRSTUVWXYZabcdefghijklmnopqrstuvwxyz_'')"

definition ident_char :: "char \<Rightarrow> bool" where
  "ident_char c = (ident_start c \<or> c \<in> set ''0123456789'')"

text \<open>
  The patterns are \<^verbatim>\<open>str\<close> patterns, so the word class behind \<^verbatim>\<open>\b\<close> is the Unicode
  one: the ASCII letters, digits and the underscore, and whatever letters and digits lie
  outside ASCII. The latter are the parameter \<open>uni\<close>, consulted only for characters
  outside ASCII.
\<close>

definition word_char :: "(char \<Rightarrow> bool) \<Rightarrow> char \<Rightarrow> bool" where
  "word_char uni c = (ident_char c \<or> (digit7 c \<and> uni c))"

definition word_boundary :: "(char \<Rightarrow> bool) \<Rightarrow> string \<Rightarrow> nat \<Rightarrow> bool" where
  "word_boundary uni line i =
     ((0 < i \<and> word_char uni (line ! (i - 1))) \<noteq> (i < length line \<and> word_char uni (line ! i)))"

text \<open>
  Each pattern is given by its match at one start index: the index just after the match,
  if there is one. \<^verbatim>\<open>SPACES_PAT = [ \t]+\<close> and
  \<^verbatim>\<open>IDENTIFIER_PAT = \b[A-Za-z_][A-Za-z0-9_]*\<close> are greedy runs.
\<close>

definition match_spaces :: "string \<Rightarrow> nat \<Rightarrow> nat option" where
  "match_spaces line i =
     (if i < length line \<and> space_char (line ! i)
      then Some (i + length (takeWhile space_char (drop i line))) else None)"

definition match_identifier :: "(char \<Rightarrow> bool) \<Rightarrow> string \<Rightarrow> nat \<Rightarrow> nat option" where
  "match_identifier uni line i =
     (if word_boundary uni line i \<and> i < length line \<and> ident_start (line ! i)
      then Some (i + length (takeWhile ident_char (drop i line))) else None)"

text \<open>
  \<^verbatim>\<open>STRING_PAT\<close> is a double quote, then any number of units, each a character other than
  a double quote or a backslash, or a backslash with any character but a newline after
  it, then a double quote. The first character of what is left decides the unit, so a
  start index has at most one match. \<open>string_body\<close> reads what follows the opening
  quote and counts the characters up to and including the closing one.
\<close>

fun string_body :: "string \<Rightarrow> nat option" where
  "string_body [] = None"
| "string_body (c # cs) =
     (if c = DQUOTE then Some 1
      else if c = BACKSLASH then
        (case cs of
           [] \<Rightarrow> None
         | d # ds \<Rightarrow> if d = NL then None else map_option (\<lambda>n. n + 2) (string_body ds))
      else map_option Suc (string_body cs))"

definition match_string :: "string \<Rightarrow> nat \<Rightarrow> nat option" where
  "match_string line i =
     (if i < length line \<and> line ! i = DQUOTE
      then map_option (\<lambda>n. i + 1 + n) (string_body (drop (i + 1) line)) else None)"

text \<open>
  \<^verbatim>\<open>pattern.search(line, col)\<close> and \<^verbatim>\<open>line.find(text, col)\<close> return the leftmost start at
  or after \<open>col\<close>: \<open>first_match\<close> tries the candidate starts in order.
\<close>

fun first_match :: "(nat \<Rightarrow> nat option) \<Rightarrow> nat list \<Rightarrow> (nat \<times> nat) option" where
  "first_match m [] = None"
| "first_match m (i # is) =
     (case m i of Some e \<Rightarrow> Some (i, e) | None \<Rightarrow> first_match m is)"

definition re_search :: "(nat \<Rightarrow> nat option) \<Rightarrow> string \<Rightarrow> nat \<Rightarrow> (nat \<times> nat) option" where
  "re_search m line col = first_match m [col..<length line]"

definition match_literal :: "string \<Rightarrow> string \<Rightarrow> nat \<Rightarrow> nat option" where
  "match_literal lit line i =
     (if take (length lit) (drop i line) = lit then Some (i + length lit) else None)"

definition str_find :: "string \<Rightarrow> string \<Rightarrow> nat \<Rightarrow> nat option" where
  "str_find line lit start = map_option fst (re_search (match_literal lit line) line start)"

subsection \<open>Block comments\<close>

text \<open>
  \<^verbatim>\<open>find_end_of_block_comment_piece(line, search_start)\<close>: the end of the comment piece
  and whether the comment closes on this line. It is called with \<open>search_start\<close> inside
  the line, so the line is not empty where \<^verbatim>\<open>line[-1]\<close> is read.
\<close>

definition ends_with_newline :: "string \<Rightarrow> bool" where
  "ends_with_newline line = (line \<noteq> [] \<and> last line = NL)"

definition line_end :: "string \<Rightarrow> nat" where
  "line_end line = (if ends_with_newline line then length line - 1 else length line)"

definition find_end_of_block_comment_piece :: "string \<Rightarrow> nat \<Rightarrow> nat \<times> bool" where
  "find_end_of_block_comment_piece line search_start =
     (case str_find line ''*/'' search_start of
        None \<Rightarrow> (line_end line, False)
      | Some i \<Rightarrow> (i + 2, True))"

subsection \<open>Choosing the earliest match\<close>

datatype pattern = SPACES_PAT | STRING_PAT | IDENTIFIER_PAT

type_synonym entry = "pattern option \<times> string option \<times> piece_kind"

definition entries :: "entry list" where
  "entries =
     [(Some SPACES_PAT, None, PIECE_SPACES),
      (Some STRING_PAT, None, PIECE_STRING),
      (Some IDENTIFIER_PAT, None, PIECE_IDENTIFIER),
      (None, Some ''/*'', PIECE_COMMENT),
      (None, Some ''//'', PIECE_COMMENT),
      (None, Some ''('', PIECE_PAROPEN),
      (None, Some '')'', PIECE_PARCLOSE),
      (None, Some '','', PIECE_COMMA)]"

fun pattern_match :: "(char \<Rightarrow> bool) \<Rightarrow> pattern \<Rightarrow> string \<Rightarrow> nat \<Rightarrow> nat option" where
  "pattern_match uni SPACES_PAT line i = match_spaces line i"
| "pattern_match uni STRING_PAT line i = match_string line i"
| "pattern_match uni IDENTIFIER_PAT line i = match_identifier uni line i"

text \<open>The start and end of one entry's match from \<open>col\<close> on, if it has one.\<close>

fun entry_search :: "(char \<Rightarrow> bool) \<Rightarrow> string \<Rightarrow> nat \<Rightarrow> entry \<Rightarrow> (nat \<times> nat) option" where
  "entry_search uni line col (Some pat, lit, k) = re_search (pattern_match uni pat line) line col"
| "entry_search uni line col (None, Some lit, k) =
     (case str_find line lit col of None \<Rightarrow> None | Some s \<Rightarrow> Some (s, s + length lit))"
| "entry_search uni line col (None, None, k) = None"

text \<open>
  The loop over the entries: a later entry replaces the best one only when it starts
  strictly earlier, and the loop stops at once on a match that starts at index 0.
\<close>

fun find_best ::
  "(char \<Rightarrow> bool) \<Rightarrow> string \<Rightarrow> nat \<Rightarrow> entry list \<Rightarrow> (entry \<times> nat \<times> nat) option
     \<Rightarrow> (entry \<times> nat \<times> nat) option" where
  "find_best uni line col [] best = best"
| "find_best uni line col (e # es) best =
     (case entry_search uni line col e of
        None \<Rightarrow> find_best uni line col es best
      | Some (start, en) \<Rightarrow>
          (if (case best of None \<Rightarrow> True | Some (b, best_start, best_end) \<Rightarrow> best_start > start)
           then (if start = 0 then Some (e, start, en)
                 else find_best uni line col es (Some (e, start, en)))
           else find_best uni line col es best))"

subsection \<open>The scanning loop\<close>

text \<open>
  One turn of the \<^verbatim>\<open>while col < len(line)\<close> loop of \<^verbatim>\<open>tokenize\<close>: the pieces it yields,
  the new column and the new comment mode. A turn that finds text before the best match
  yields that text and the match.
\<close>

definition token_step ::
  "(char \<Rightarrow> bool) \<Rightarrow> string option \<Rightarrow> nat \<Rightarrow> string \<Rightarrow> nat \<Rightarrow> bool \<Rightarrow> piece list \<times> nat \<times> bool" where
  "token_step uni fnm ln line col comment_mode =
     (if line ! col = NL then
        ([StrPiece PIECE_EOL (Position ln fnm (Some col)) [NL]], col + 1, comment_mode)
      else if comment_mode then
        (case find_end_of_block_comment_piece line col of
           (en, eoc_found) \<Rightarrow>
             ([SubstrPiece PIECE_COMMENT (Position ln fnm (Some col)) (en - col) line], en,
              (if eoc_found then False else comment_mode)))
      else
        (case find_best uni line col entries None of
           None \<Rightarrow>
             ([SubstrPiece PIECE_TEXT (Position ln fnm (Some col)) (line_end line - col) line],
              line_end line, comment_mode)
         | Some ((pat, lit, k), best_start, best_end) \<Rightarrow>
             (let before = (if best_start > col
                    then [SubstrPiece PIECE_TEXT (Position ln fnm (Some col)) (best_start - col) line]
                    else []);
                  col1 = (if best_start > col then best_start else col)
              in if lit = Some ''/*'' then
                   (case find_end_of_block_comment_piece line (col1 + 2) of
                      (en, eoc_found) \<Rightarrow>
                        (before @ [SubstrPiece PIECE_COMMENT (Position ln fnm (Some col1)) (en - col1) line],
                         en, (if \<not> eoc_found then True else comment_mode)))
                 else if lit = Some ''//'' then
                   (before @ [SubstrPiece k (Position ln fnm (Some col1)) (line_end line - col1) line],
                    line_end line, comment_mode)
                 else
                   (before @ [SubstrPiece k (Position ln fnm (Some col1)) (best_end - best_start) line],
                    best_end, comment_mode))))"

subsection \<open>Every turn of the loop advances and spells what it passes over\<close>

lemma first_match_Some:
  "first_match m cands = Some (s, e) \<Longrightarrow> s \<in> set cands \<and> m s = Some e"
  by (induction cands) (auto split: option.splits)

lemma re_search_Some:
  "re_search m line col = Some (s, e) \<Longrightarrow> col \<le> s \<and> s < length line \<and> m s = Some e"
  unfolding re_search_def by (drule first_match_Some) auto

lemma takeWhile_first: "xs \<noteq> [] \<Longrightarrow> P (hd xs) \<Longrightarrow> 0 < length (takeWhile P xs)"
  by (cases xs) auto

lemma match_spaces_bounds: "match_spaces line s = Some e \<Longrightarrow> s < e \<and> e \<le> length line"
proof -
  assume a: "match_spaces line s = Some e"
  then have s: "s < length line" "space_char (line ! s)" and e: "e = s + length (takeWhile space_char (drop s line))"
    by (auto simp: match_spaces_def split: if_splits)
  have "0 < length (takeWhile space_char (drop s line))"
    using s by (intro takeWhile_first) (auto simp: hd_drop_conv_nth)
  moreover have "length (takeWhile space_char (drop s line)) \<le> length (drop s line)"
    by (rule length_takeWhile_le)
  ultimately show ?thesis using e s by auto
qed

lemma ident_start_char: "ident_start c \<Longrightarrow> ident_char c"
  by (simp add: ident_char_def)

lemma match_identifier_bounds: "match_identifier uni line s = Some e \<Longrightarrow> s < e \<and> e \<le> length line"
proof -
  assume a: "match_identifier uni line s = Some e"
  then have s: "s < length line" "ident_start (line ! s)" and e: "e = s + length (takeWhile ident_char (drop s line))"
    by (auto simp: match_identifier_def split: if_splits)
  have "0 < length (takeWhile ident_char (drop s line))"
    using s by (intro takeWhile_first) (auto simp: hd_drop_conv_nth ident_start_char)
  moreover have "length (takeWhile ident_char (drop s line)) \<le> length (drop s line)"
    by (rule length_takeWhile_le)
  ultimately show ?thesis using e s by auto
qed

lemma string_body_bounds: "string_body cs = Some n \<Longrightarrow> 0 < n \<and> n \<le> length cs"
  by (induction cs arbitrary: n rule: string_body.induct) (auto split: if_splits list.splits)

lemma match_string_bounds: "match_string line s = Some e \<Longrightarrow> s < e \<and> e \<le> length line"
  by (auto simp: match_string_def split: if_splits dest!: string_body_bounds)

lemma match_literal_bounds:
  "lit \<noteq> [] \<Longrightarrow> match_literal lit line s = Some e \<Longrightarrow> s < e \<and> e \<le> length line \<and> e = s + length lit"
proof -
  assume l: "lit \<noteq> []" and a: "match_literal lit line s = Some e"
  then have t: "take (length lit) (drop s line) = lit" and e: "e = s + length lit"
    by (auto simp: match_literal_def split: if_splits)
  from t have "length (take (length lit) (drop s line)) = length lit" by simp
  then have "length lit \<le> length line - s" by simp
  moreover have "0 < length lit" using l by simp
  ultimately show ?thesis using e by linarith
qed

lemma str_find_Some:
  "lit \<noteq> [] \<Longrightarrow> str_find line lit start = Some i \<Longrightarrow>
     start \<le> i \<and> i + length lit \<le> length line \<and> take (length lit) (drop i line) = lit"
  unfolding str_find_def
  by (auto dest!: re_search_Some match_literal_bounds simp: match_literal_def split: if_splits)

lemma pattern_match_bounds: "pattern_match uni pat line s = Some e \<Longrightarrow> s < e \<and> e \<le> length line"
  by (cases pat) (auto dest: match_spaces_bounds match_string_bounds match_identifier_bounds)

lemma entry_search_bounds:
  assumes "ent \<in> set entries" and "entry_search uni line col ent = Some (s, e)"
  shows "col \<le> s \<and> s < e \<and> e \<le> length line"
proof (cases ent)
  case (fields pat lit k)
  show ?thesis
  proof (cases pat)
    case (Some p)
    with fields assms(2) show ?thesis
      by (auto dest!: re_search_Some pattern_match_bounds)
  next
    case None
    with fields assms(1) obtain l where l: "lit = Some l" "l \<noteq> []"
      by (auto simp: entries_def)
    with None fields assms(2) have f: "str_find line l col = Some s" and e: "e = s + length l"
      by (auto split: option.splits)
    from str_find_Some[OF l(2) f] e l(2) show ?thesis by (cases l) auto
  qed
qed

definition best_ok :: "(char \<Rightarrow> bool) \<Rightarrow> string \<Rightarrow> nat \<Rightarrow> (entry \<times> nat \<times> nat) option \<Rightarrow> bool" where
  "best_ok uni line col best =
     (case best of None \<Rightarrow> True
      | Some (ent, s, e) \<Rightarrow> ent \<in> set entries \<and> col \<le> s \<and> s < e \<and> e \<le> length line
          \<and> entry_search uni line col ent = Some (s, e))"

lemma find_best_ok:
  "set es \<subseteq> set entries \<Longrightarrow> best_ok uni line col best \<Longrightarrow>
     best_ok uni line col (find_best uni line col es best)"
proof (induction es arbitrary: best)
  case Nil
  then show ?case by simp
next
  case (Cons a es)
  show ?case
  proof (cases "entry_search uni line col a")
    case None
    with Cons show ?thesis by simp
  next
    case (Some se)
    obtain s e where se: "se = (s, e)" by (cases se)
    have a: "a \<in> set entries" using Cons.prems(1) by simp
    have ok: "best_ok uni line col (Some (a, s, e))"
      using entry_search_bounds[OF a] Some se a by (simp add: best_ok_def)
    show ?thesis
      using Cons.IH[of best] Cons.IH[of "Some (a, s, e)"] Cons.prems ok Some se
      by (auto split: option.splits)
  qed
qed

lemma find_best_entries:
  "find_best uni line col entries None = Some (ent, s, e) \<Longrightarrow>
     ent \<in> set entries \<and> col \<le> s \<and> s < e \<and> e \<le> length line
       \<and> entry_search uni line col ent = Some (s, e)"
  using find_best_ok[of entries uni line col None]
  by (simp add: best_ok_def)

lemma line_end_le: "line_end line \<le> length line"
  by (simp add: line_end_def)

lemma line_end_gt: "col < length line \<Longrightarrow> line ! col \<noteq> NL \<Longrightarrow> col < line_end line"
  by (cases "col = length line - 1")
     (auto simp: line_end_def ends_with_newline_def last_conv_nth)

lemma block_end_bounds:
  assumes "find_end_of_block_comment_piece line start = (en, eoc)" and "start \<le> line_end line"
  shows "start \<le> en \<and> en \<le> length line"
proof (cases "str_find line ''*/'' start")
  case None
  with assms line_end_le[of line] show ?thesis
    by (auto simp: find_end_of_block_comment_piece_def)
next
  case (Some i)
  from str_find_Some[OF _ Some] have "start \<le> i \<and> i + 2 \<le> length line" by simp
  with Some assms show ?thesis
    by (auto simp: find_end_of_block_comment_piece_def)
qed

lemma take_take_drop:
  "col \<le> a \<Longrightarrow> a \<le> b \<Longrightarrow>
     take (a - col) (drop col l) @ take (b - a) (drop a l) = take (b - col) (drop col l)"
proof -
  assume h: "col \<le> a" "a \<le> b"
  have "take ((a - col) + (b - a)) (drop col l)
          = take (a - col) (drop col l) @ take (b - a) (drop (a - col) (drop col l))"
    by (rule take_add)
  with h show ?thesis by simp
qed

lemma Position_sel [simp]:
  "lineno (Position ln fnm c) = ln" "fname (Position ln fnm c) = fnm" "column (Position ln fnm c) = c"
  by (simp_all add: Position_def)

lemma take_one_drop: "col < length line \<Longrightarrow> take (Suc 0) (drop col line) = [line ! col]"
  by (simp add: take_Suc_conv_app_nth)

lemma str_find_nth:
  assumes "lit \<noteq> []" and "str_find line lit start = Some i" and "j < length lit"
  shows "line ! (i + j) = lit ! j"
proof -
  from str_find_Some[OF assms(1,2)]
  have t: "take (length lit) (drop i line) = lit" and b: "i + length lit \<le> length line" by auto
  have "take (length lit) (drop i line) ! j = line ! (i + j)" using assms(3) b by simp
  with t show ?thesis by simp
qed

lemma str_find_le:
  "lit \<noteq> [] \<Longrightarrow> str_find line lit start = Some i \<Longrightarrow> i + length lit \<le> length line"
  by (drule (1) str_find_Some) simp

lemma token_step_props:
  assumes c: "col < length line"
    and st: "token_step uni fnm ln line col cm = (ps, col', cm')"
  shows "col < col' \<and> col' \<le> length line
           \<and> concat (map get_text ps) = take (col' - col) (drop col line)"
proof (cases "line ! col = NL")
  case True
  with st c show ?thesis
    by (auto simp: token_step_def take_one_drop)
next
  case nl: False
  note le = line_end_gt[OF c nl]
  show ?thesis
  proof (cases cm)
    case True
    obtain en eoc where f: "find_end_of_block_comment_piece line col = (en, eoc)"
      by (cases "find_end_of_block_comment_piece line col")
    have "col < en"
    proof (cases "str_find line ''*/'' col")
      case None
      with f le show ?thesis by (simp add: find_end_of_block_comment_piece_def)
    next
      case (Some i)
      from str_find_Some[OF _ Some] Some f show ?thesis
        by (auto simp: find_end_of_block_comment_piece_def)
    qed
    moreover have "en \<le> length line"
      using block_end_bounds[OF f] le by simp
    ultimately show ?thesis using st nl True f
      by (auto simp: token_step_def)
  next
    case False
    show ?thesis
    proof (cases "find_best uni line col entries None")
      case None
      with st nl False le show ?thesis
        by (auto simp: token_step_def line_end_le)
    next
      case (Some b)
      obtain pat lit k bs be where b: "b = ((pat, lit, k), bs, be)"
        by (cases b) auto
      from find_best_entries[OF Some[unfolded b]]
      have bnd: "col \<le> bs" "bs < be" "be \<le> length line"
        and es: "entry_search uni line col (pat, lit, k) = Some (bs, be)"
        and mem: "(pat, lit, k) \<in> set entries"
        by auto
      have col1: "(if col < bs then bs else col) = bs" using bnd by auto
      define before where "before = (if bs > col
          then [SubstrPiece PIECE_TEXT (Position ln fnm (Some col)) (bs - col) line] else [])"
      have bt: "concat (map get_text before) = take (bs - col) (drop col line)"
        using bnd by (simp add: before_def)
      show ?thesis
      proof (cases "lit = Some ''/*''")
        case True
        obtain en eoc where f: "find_end_of_block_comment_piece line (bs + 2) = (en, eoc)"
          by (cases "find_end_of_block_comment_piece line (bs + 2)")
        from True mem have "pat = None" by (auto simp: entries_def)
        with es True have sf: "str_find line ''/*'' col = Some bs" and be: "be = bs + 2"
          by (auto split: option.splits)
        from str_find_le[OF _ sf] have b2: "bs + 2 \<le> length line" by simp
        from str_find_nth[OF _ sf, of 1] have "line ! (bs + 1) = CHR ''*''" by simp
        then have "line ! (bs + 1) \<noteq> NL" by (simp add: NL_def)
        then have "bs + 1 < line_end line" using b2 by (intro line_end_gt) auto
        then have en: "bs + 2 \<le> en \<and> en \<le> length line"
          using block_end_bounds[OF f] by simp
        have "ps = before @ [SubstrPiece PIECE_COMMENT (Position ln fnm (Some bs)) (en - bs) line]"
          and "col' = en"
          using st nl False Some b True f bnd
          by (auto simp: token_step_def before_def Let_def col1)
        then show ?thesis using bt en bnd take_take_drop[of col bs en line]
          by simp
      next
        case nbc: False
        show ?thesis
        proof (cases "lit = Some ''//''")
          case True
          from True mem have "pat = None" by (auto simp: entries_def)
          with es True have sf: "str_find line ''//'' col = Some bs" and be: "be = bs + 2"
            by (auto split: option.splits)
          from str_find_le[OF _ sf] have b2: "bs + 2 \<le> length line" by simp
          from str_find_nth[OF _ sf, of 1] have "line ! (bs + 1) = CHR ''/''" by simp
          then have "line ! (bs + 1) \<noteq> NL" by (simp add: NL_def)
          then have en: "bs + 1 < line_end line" using b2 by (intro line_end_gt) auto
          have "ps = before @ [SubstrPiece k (Position ln fnm (Some bs)) (line_end line - bs) line]"
            and "col' = line_end line"
            using st nl False Some b True bnd
            by (auto simp: token_step_def before_def Let_def col1)
          then show ?thesis using bt en bnd take_take_drop[of col bs "line_end line" line] line_end_le[of line]
            by simp
        next
          case False
          have "ps = before @ [SubstrPiece k (Position ln fnm (Some bs)) (be - bs) line]"
            and "col' = be"
            using st nl \<open>\<not> cm\<close> Some b False nbc bnd
            by (auto simp: token_step_def before_def Let_def col1)
          then show ?thesis using bt bnd take_take_drop[of col bs be line]
            by simp
        qed
      qed
    qed
  qed
qed

lemma token_step_decreases:
  assumes "col < length line" and "(ps, y) = token_step uni fnm ln line col cm" and "(col', cm') = y"
  shows "((uni, fnm, ln, line, col', cm'), (uni, fnm, ln, line, col, cm))
           \<in> measure (\<lambda>(uni, fnm, ln, line, col, cm). length line - col)"
proof -
  from assms have "token_step uni fnm ln line col cm = (ps, col', cm')" by simp
  from token_step_props[OF assms(1) this] assms(1) show ?thesis by simp linarith
qed

text \<open>
  The \<^verbatim>\<open>while col < len(line)\<close> loop over one line: the pieces of the line from \<open>col\<close>
  on, and the comment mode at the end of the line. Every turn advances the column
  (\<open>token_step_props\<close>), which is the termination argument.
\<close>

function tokenize_line ::
  "(char \<Rightarrow> bool) \<Rightarrow> string option \<Rightarrow> nat \<Rightarrow> string \<Rightarrow> nat \<Rightarrow> bool \<Rightarrow> piece list \<times> bool" where
  "tokenize_line uni fnm ln line col comment_mode =
     (if col < length line then
        (case token_step uni fnm ln line col comment_mode of
           (ps, col', cm') \<Rightarrow>
             (case tokenize_line uni fnm ln line col' cm' of
                (rest, cm_end) \<Rightarrow> (ps @ rest, cm_end)))
      else ([], comment_mode))"
  by pat_completeness auto
termination
  apply (relation "measure (\<lambda>(uni, fnm, ln, line, col, cm). length line - col)")
   apply simp
  apply (erule (2) token_step_decreases)
  done

declare tokenize_line.simps [simp del]

text \<open>
  The \<^verbatim>\<open>for line in line_stream_file(fname)\<close> loop, and after it the end-of-file piece,
  whose text is the marker \<^verbatim>\<open>'EOF-EOF-EOF'\<close>.
\<close>

fun tokenize_lines ::
  "(char \<Rightarrow> bool) \<Rightarrow> string option \<Rightarrow> nat \<Rightarrow> string list \<Rightarrow> bool \<Rightarrow> piece list" where
  "tokenize_lines uni fnm ln [] comment_mode =
     [StrPiece PIECE_EOF (Position ln fnm (Some 0)) ''EOF-EOF-EOF'']"
| "tokenize_lines uni fnm ln (line # lns) comment_mode =
     (case tokenize_line uni fnm ln line 0 comment_mode of
        (ps, cm') \<Rightarrow> ps @ tokenize_lines uni fnm (ln + 1) lns cm')"

subsection \<open>Files and errors\<close>

text \<open>
  The messages of the fatal reports, with the values formatted into them, and the ways
  a run ends early: a fatal report (\<^verbatim>\<open>report.report_error\<close> prints it and exits), or a
  Python exception nobody catches. \<^verbatim>\<open>RuntimeError\<close> is what a \<^verbatim>\<open>StopIteration\<close> raised inside
  a generator becomes.
\<close>

datatype message =
  MissingOpenParentheses "string option"
  | MissingClosingParentheses "string option"
  | IncorrectNumberOfArgument "string option" nat nat
  | TooManyMacroExpansions
  | ParameterListedMoreThanOnce string
  | NestedMacro
  | IncludeInMacroDefinition
  | TooManyIncludes
  | EndmacroWithoutDefine
  | EndOfFileInMacroDefinition

datatype error =
  Fatal "position option list" message
  | OSError
  | AttributeError
  | TypeError
  | AssertionError
  | IndexError
  | KeyError
  | RuntimeError

text \<open>
  The files a run can read, by name, as the text Python hands out (decoded, newlines
  translated); the name \<open>None\<close> is standard input. Iterating over a file gives its
  lines, each with its newline, the last one possibly without.
\<close>

type_synonym files = "string option \<Rightarrow> string option"

fun split_lines :: "string \<Rightarrow> string \<Rightarrow> string list" where
  "split_lines cur [] = (if cur = [] then [] else [cur])"
| "split_lines cur (c # cs) =
     (if c = NL then (cur @ [c]) # split_lines [] cs else split_lines (cur @ [c]) cs)"

definition line_stream_file :: "files \<Rightarrow> string option \<Rightarrow> error + string list" where
  "line_stream_file fs fnm =
     (case fs fnm of None \<Rightarrow> Inl OSError | Some content \<Rightarrow> Inr (split_lines [] content))"

definition tokenize :: "(char \<Rightarrow> bool) \<Rightarrow> files \<Rightarrow> string option \<Rightarrow> error + piece list" where
  "tokenize uni fs fnm =
     (case line_stream_file fs fnm of
        Inl e \<Rightarrow> Inl e
      | Inr lns \<Rightarrow> Inr (tokenize_lines uni fnm 1 lns False))"

text \<open>Names for the examples: a word class with nothing outside ASCII, a single file.\<close>

definition ascii_only :: "char \<Rightarrow> bool" where
  "ascii_only c = False"

definition one_file :: "string \<Rightarrow> string \<Rightarrow> files" where
  "one_file name content = (\<lambda>f. if f = Some name then Some content else None)"

definition pieces_text :: "piece list \<Rightarrow> string" where
  "pieces_text ps = concat (map get_text ps)"

section \<open>The directive recognizer (match2.py)\<close>

subsection \<open>The three accumulators\<close>

text \<open>
  \<^verbatim>\<open>DefinePiece\<close>, \<^verbatim>\<open>IncludePiece\<close> and \<^verbatim>\<open>EndMacroPiece\<close>. A fresh accumulator has no
  position, name or file name yet (\<open>None\<close>), and every one keeps the pieces it has
  absorbed in \<open>storeds\<close>.
\<close>

record define_piece =
  def_pos :: "position option"
  def_name :: "string option"
  parameters :: "piece list"
  content :: "piece list"
  def_storeds :: "piece list"

record include_piece =
  inc_pos :: "position option"
  filename :: "string option"
  inc_storeds :: "piece list"

record endmacro_piece =
  end_pos :: "position option"
  end_storeds :: "piece list"

definition DefinePiece :: define_piece where
  "DefinePiece = \<lparr>def_pos = None, def_name = None, parameters = [], content = [], def_storeds = []\<rparr>"

definition IncludePiece :: include_piece where
  "IncludePiece = \<lparr>inc_pos = None, filename = None, inc_storeds = []\<rparr>"

definition EndMacroPiece :: endmacro_piece where
  "EndMacroPiece = \<lparr>end_pos = None, end_storeds = []\<rparr>"

datatype sequence = Define define_piece | Include include_piece | EndMacro endmacro_piece

text \<open>What the recognizer yields: pieces, and finished accumulators.\<close>

datatype mixed = Piece piece | Directive sequence

fun storeds :: "sequence \<Rightarrow> piece list" where
  "storeds (Define d) = def_storeds d"
| "storeds (Include i) = inc_storeds i"
| "storeds (EndMacro e) = end_storeds e"

fun storeds_append :: "sequence \<Rightarrow> piece \<Rightarrow> sequence" where
  "storeds_append (Define d) p = Define (d\<lparr>def_storeds := def_storeds d @ [p]\<rparr>)"
| "storeds_append (Include i) p = Include (i\<lparr>inc_storeds := inc_storeds i @ [p]\<rparr>)"
| "storeds_append (EndMacro e) p = EndMacro (e\<lparr>end_storeds := end_storeds e @ [p]\<rparr>)"

text \<open>
  \<^verbatim>\<open>unescape\<close>: the text between the quotes of a string literal, a backslash giving the
  character after it (\<^verbatim>\<open>n\<close> a newline, \<^verbatim>\<open>t\<close> a tab). \<open>unescape_loop\<close> is the loop
  \<^verbatim>\<open>while i < last\<close>, on the characters from index \<open>i\<close> to the last one: it stops when
  at most the last character is left.
\<close>

definition ESCAPES :: "char \<Rightarrow> char" where
  "ESCAPES c = (if c = CHR ''n'' then NL else if c = CHR ''t'' then TAB else c)"

fun unescape_loop :: "string \<Rightarrow> string" where
  "unescape_loop (c # d # cs) =
     (if c = BACKSLASH then ESCAPES d # unescape_loop cs else c # unescape_loop (d # cs))"
| "unescape_loop cs = []"

definition unescape :: "string \<Rightarrow> error + string" where
  "unescape s =
     (if s = [] then Inl IndexError
      else if \<not> (hd s = DQUOTE \<and> last s = DQUOTE) then Inl AssertionError
      else Inr (unescape_loop (tl s)))"

datatype store_action = STORE_POSITION | STORE_NAME | STORE_PARAMETER | STORE_FILENAME

text \<open>
  The \<^verbatim>\<open>store\<close> methods. A parameter whose name the definition already lists is the
  fatal report with both positions; a slot the accumulator does not have fails the
  method's \<^verbatim>\<open>assert False\<close>.
\<close>

fun store :: "sequence \<Rightarrow> piece \<Rightarrow> store_action \<Rightarrow> error + sequence" where
  "store (Define d) piece STORE_POSITION = Inr (Define (d\<lparr>def_pos := Some (pos piece)\<rparr>))"
| "store (Define d) piece STORE_NAME = Inr (Define (d\<lparr>def_name := Some (get_text piece)\<rparr>))"
| "store (Define d) piece STORE_PARAMETER =
     (case find (\<lambda>p. get_text piece = get_text p) (parameters d) of
        Some p \<Rightarrow>
          Inl (Fatal [Some (pos piece), Some (pos p)] (ParameterListedMoreThanOnce (get_text piece)))
      | None \<Rightarrow> Inr (Define (d\<lparr>parameters := parameters d @ [piece]\<rparr>)))"
| "store (Define d) piece STORE_FILENAME = Inl AssertionError"
| "store (Include i) piece STORE_POSITION = Inr (Include (i\<lparr>inc_pos := Some (pos piece)\<rparr>))"
| "store (Include i) piece STORE_FILENAME =
     (case unescape (get_text piece) of
        Inl e \<Rightarrow> Inl e
      | Inr f \<Rightarrow> Inr (Include (i\<lparr>filename := Some f\<rparr>)))"
| "store (Include i) piece w = Inl AssertionError"
| "store (EndMacro e) piece STORE_POSITION = Inr (EndMacro (e\<lparr>end_pos := Some (pos piece)\<rparr>))"
| "store (EndMacro e) piece w = Inl AssertionError"

subsection \<open>The state machine\<close>

datatype sequence_action = ACT_DEFINE | ACT_INCLUDE | ACT_ENDMACRO | ACT_DISCARD | ACT_SEND

datatype expected = EXP_NONE | EXP_DEFINE | EXP_INCLUDE | EXP_ENDMACRO

text \<open>\<^verbatim>\<open>Edge(kind, text=None, goto=None, sequence_action=None, store=None)\<close>.\<close>

datatype edge =
  Edge (edge_kind: piece_kind) (edge_text: "string option") (goto: "nat option")
    (sequence_action: "sequence_action option") (edge_store: "store_action option")

datatype state =
  MatchState nat expected "edge list"
  | FinishState nat expected "nat option"

fun state_num :: "state \<Rightarrow> nat" where
  "state_num (MatchState n ex edges) = n"
| "state_num (FinishState n ex g) = n"

fun expected_sequence :: "state \<Rightarrow> expected" where
  "expected_sequence (MatchState n ex edges) = ex"
| "expected_sequence (FinishState n ex g) = ex"

abbreviation (input) STATE1 :: nat where "STATE1 \<equiv> 1"
abbreviation (input) STATE2 :: nat where "STATE2 \<equiv> 2"
abbreviation (input) STATE11 :: nat where "STATE11 \<equiv> 11"
abbreviation (input) STATE12 :: nat where "STATE12 \<equiv> 12"
abbreviation (input) STATE13 :: nat where "STATE13 \<equiv> 13"
abbreviation (input) STATE14 :: nat where "STATE14 \<equiv> 14"
abbreviation (input) STATE15 :: nat where "STATE15 \<equiv> 15"
abbreviation (input) STATE18 :: nat where "STATE18 \<equiv> 18"
abbreviation (input) STATE21 :: nat where "STATE21 \<equiv> 21"
abbreviation (input) STATE22 :: nat where "STATE22 \<equiv> 22"
abbreviation (input) STATE28 :: nat where "STATE28 \<equiv> 28"
abbreviation (input) STATE29 :: nat where "STATE29 \<equiv> 29"
abbreviation (input) STATE31 :: nat where "STATE31 \<equiv> 31"
abbreviation (input) STATE99 :: nat where "STATE99 \<equiv> 99"

definition STATES :: "state list" where
  "STATES =
     [MatchState STATE1 EXP_NONE
        [Edge PIECE_COMMA None (Some STATE2) None None,
         Edge PIECE_COMMENT None (Some STATE2) None None,
         Edge PIECE_EOF None (Some STATE99) None None,
         Edge PIECE_EOL None None None None,
         Edge PIECE_IDENTIFIER (Some ''define'') (Some STATE11) (Some ACT_DEFINE) (Some STORE_POSITION),
         Edge PIECE_IDENTIFIER (Some ''include'') (Some STATE21) (Some ACT_INCLUDE) (Some STORE_POSITION),
         Edge PIECE_IDENTIFIER (Some ''endmacro'') (Some STATE31) (Some ACT_ENDMACRO) (Some STORE_POSITION),
         Edge PIECE_IDENTIFIER None (Some STATE2) None None,
         Edge PIECE_PARCLOSE None (Some STATE2) None None,
         Edge PIECE_PAROPEN None (Some STATE2) None None,
         Edge PIECE_SPACES None None None None,
         Edge PIECE_STRING None (Some STATE2) None None,
         Edge PIECE_TEXT None (Some STATE2) None None],
      FinishState STATE31 EXP_ENDMACRO (Some STATE2),
      MatchState STATE2 EXP_NONE
        [Edge PIECE_COMMA None None None None,
         Edge PIECE_COMMENT None None None None,
         Edge PIECE_EOF None (Some STATE99) None None,
         Edge PIECE_EOL None (Some STATE1) None None,
         Edge PIECE_IDENTIFIER (Some ''endmacro'') (Some STATE31) (Some ACT_ENDMACRO) (Some STORE_POSITION),
         Edge PIECE_IDENTIFIER None None None None,
         Edge PIECE_PARCLOSE None None None None,
         Edge PIECE_PAROPEN None None None None,
         Edge PIECE_SPACES None None None None,
         Edge PIECE_STRING None None None None,
         Edge PIECE_TEXT None None None None],
      MatchState STATE11 EXP_DEFINE
        [Edge PIECE_COMMA None (Some STATE2) (Some ACT_DISCARD) None,
         Edge PIECE_COMMENT None (Some STATE2) (Some ACT_DISCARD) None,
         Edge PIECE_EOF None (Some STATE99) (Some ACT_DISCARD) None,
         Edge PIECE_EOL None (Some STATE1) (Some ACT_DISCARD) None,
         Edge PIECE_IDENTIFIER (Some ''define'') (Some STATE2) (Some ACT_DISCARD) None,
         Edge PIECE_IDENTIFIER (Some ''include'') (Some STATE2) (Some ACT_DISCARD) None,
         Edge PIECE_IDENTIFIER (Some ''endmacro'') (Some STATE31) (Some ACT_ENDMACRO) (Some STORE_POSITION),
         Edge PIECE_IDENTIFIER None (Some STATE12) None (Some STORE_NAME),
         Edge PIECE_PARCLOSE None (Some STATE2) (Some ACT_DISCARD) None,
         Edge PIECE_PAROPEN None (Some STATE2) (Some ACT_DISCARD) None,
         Edge PIECE_SPACES None None None None,
         Edge PIECE_STRING None (Some STATE2) (Some ACT_DISCARD) None,
         Edge PIECE_TEXT None (Some STATE2) (Some ACT_DISCARD) None],
      MatchState STATE12 EXP_DEFINE
        [Edge PIECE_COMMA None (Some STATE2) (Some ACT_DISCARD) None,
         Edge PIECE_COMMENT None (Some STATE2) (Some ACT_DISCARD) None,
         Edge PIECE_EOF None (Some STATE99) (Some ACT_DISCARD) None,
         Edge PIECE_EOL None (Some STATE1) (Some ACT_DISCARD) None,
         Edge PIECE_IDENTIFIER (Some ''endmacro'') (Some STATE31) (Some ACT_ENDMACRO) (Some STORE_POSITION),
         Edge PIECE_IDENTIFIER None (Some STATE2) (Some ACT_DISCARD) None,
         Edge PIECE_PARCLOSE None (Some STATE2) (Some ACT_DISCARD) None,
         Edge PIECE_PAROPEN None (Some STATE13) None None,
         Edge PIECE_SPACES None None None None,
         Edge PIECE_STRING None (Some STATE2) (Some ACT_DISCARD) None,
         Edge PIECE_TEXT None (Some STATE2) (Some ACT_DISCARD) None],
      MatchState STATE13 EXP_DEFINE
        [Edge PIECE_COMMA None (Some STATE2) (Some ACT_DISCARD) None,
         Edge PIECE_COMMENT None (Some STATE2) (Some ACT_DISCARD) None,
         Edge PIECE_EOF None (Some STATE99) (Some ACT_DISCARD) None,
         Edge PIECE_EOL None (Some STATE1) (Some ACT_DISCARD) None,
         Edge PIECE_IDENTIFIER (Some ''define'') (Some STATE2) (Some ACT_DISCARD) None,
         Edge PIECE_IDENTIFIER (Some ''include'') (Some STATE2) (Some ACT_DISCARD) None,
         Edge PIECE_IDENTIFIER (Some ''endmacro'') (Some STATE31) (Some ACT_ENDMACRO) (Some STORE_POSITION),
         Edge PIECE_IDENTIFIER None (Some STATE14) None (Some STORE_PARAMETER),
         Edge PIECE_PARCLOSE None (Some STATE18) None None,
         Edge PIECE_PAROPEN None (Some STATE2) (Some ACT_DISCARD) None,
         Edge PIECE_SPACES None None None None,
         Edge PIECE_STRING None (Some STATE2) (Some ACT_DISCARD) None,
         Edge PIECE_TEXT None (Some STATE2) (Some ACT_DISCARD) None],
      MatchState STATE14 EXP_DEFINE
        [Edge PIECE_COMMA None (Some STATE15) None None,
         Edge PIECE_COMMENT None (Some STATE2) (Some ACT_DISCARD) None,
         Edge PIECE_EOF None (Some STATE99) (Some ACT_DISCARD) None,
         Edge PIECE_EOL None (Some STATE1) (Some ACT_DISCARD) None,
         Edge PIECE_IDENTIFIER (Some ''endmacro'') (Some STATE31) (Some ACT_ENDMACRO) (Some STORE_POSITION),
         Edge PIECE_IDENTIFIER None (Some STATE2) (Some ACT_DISCARD) None,
         Edge PIECE_PARCLOSE None (Some STATE18) None None,
         Edge PIECE_PAROPEN None (Some STATE2) (Some ACT_DISCARD) None,
         Edge PIECE_SPACES None None None None,
         Edge PIECE_STRING None (Some STATE2) (Some ACT_DISCARD) None,
         Edge PIECE_TEXT None (Some STATE2) (Some ACT_DISCARD) None],
      MatchState STATE15 EXP_DEFINE
        [Edge PIECE_COMMA None (Some STATE2) (Some ACT_DISCARD) None,
         Edge PIECE_COMMENT None (Some STATE2) (Some ACT_DISCARD) None,
         Edge PIECE_EOF None (Some STATE99) (Some ACT_DISCARD) None,
         Edge PIECE_EOL None (Some STATE1) (Some ACT_DISCARD) None,
         Edge PIECE_IDENTIFIER (Some ''define'') (Some STATE2) (Some ACT_DISCARD) None,
         Edge PIECE_IDENTIFIER (Some ''include'') (Some STATE2) (Some ACT_DISCARD) None,
         Edge PIECE_IDENTIFIER (Some ''endmacro'') (Some STATE31) (Some ACT_ENDMACRO) (Some STORE_POSITION),
         Edge PIECE_IDENTIFIER None (Some STATE14) None (Some STORE_PARAMETER),
         Edge PIECE_PARCLOSE None (Some STATE2) (Some ACT_DISCARD) None,
         Edge PIECE_PAROPEN None (Some STATE2) (Some ACT_DISCARD) None,
         Edge PIECE_SPACES None None None None,
         Edge PIECE_STRING None (Some STATE2) (Some ACT_DISCARD) None,
         Edge PIECE_TEXT None (Some STATE2) (Some ACT_DISCARD) None],
      FinishState STATE18 EXP_DEFINE (Some STATE2),
      MatchState STATE21 EXP_INCLUDE
        [Edge PIECE_COMMA None (Some STATE2) (Some ACT_DISCARD) None,
         Edge PIECE_COMMENT None (Some STATE2) (Some ACT_DISCARD) None,
         Edge PIECE_EOF None (Some STATE99) (Some ACT_DISCARD) None,
         Edge PIECE_EOL None (Some STATE1) (Some ACT_DISCARD) None,
         Edge PIECE_IDENTIFIER (Some ''endmacro'') (Some STATE31) (Some ACT_ENDMACRO) (Some STORE_POSITION),
         Edge PIECE_IDENTIFIER None (Some STATE2) (Some ACT_DISCARD) None,
         Edge PIECE_PARCLOSE None (Some STATE2) (Some ACT_DISCARD) None,
         Edge PIECE_PAROPEN None (Some STATE2) (Some ACT_DISCARD) None,
         Edge PIECE_SPACES None None None None,
         Edge PIECE_STRING None (Some STATE22) None (Some STORE_FILENAME),
         Edge PIECE_TEXT None (Some STATE2) (Some ACT_DISCARD) None],
      MatchState STATE22 EXP_INCLUDE
        [Edge PIECE_COMMA None (Some STATE2) (Some ACT_DISCARD) None,
         Edge PIECE_COMMENT None (Some STATE2) (Some ACT_DISCARD) None,
         Edge PIECE_EOF None (Some STATE29) (Some ACT_SEND) None,
         Edge PIECE_EOL None (Some STATE28) None None,
         Edge PIECE_IDENTIFIER (Some ''endmacro'') (Some STATE31) (Some ACT_ENDMACRO) (Some STORE_POSITION),
         Edge PIECE_IDENTIFIER None (Some STATE2) (Some ACT_DISCARD) None,
         Edge PIECE_PARCLOSE None (Some STATE2) (Some ACT_DISCARD) None,
         Edge PIECE_PAROPEN None (Some STATE2) (Some ACT_DISCARD) None,
         Edge PIECE_SPACES None None None None,
         Edge PIECE_STRING None (Some STATE2) (Some ACT_DISCARD) None,
         Edge PIECE_TEXT None (Some STATE2) (Some ACT_DISCARD) None],
      FinishState STATE28 EXP_INCLUDE (Some STATE1),
      FinishState STATE29 EXP_INCLUDE (Some STATE99),
      FinishState STATE99 EXP_NONE None]"

text \<open>The dictionary from state numbers to states that \<^verbatim>\<open>setup_states\<close> builds.\<close>

definition available_states :: "nat \<rightharpoonup> state" where
  "available_states = map_of (map (\<lambda>s. (state_num s, s)) STATES)"

text \<open>
  The checks of \<^verbatim>\<open>setup_states\<close>: no state number twice; in a \<^verbatim>\<open>MatchState\<close> every
  \<^verbatim>\<open>goto\<close> exists, the edges without a text cover \<^verbatim>\<open>NUM_PIECES\<close> kinds, and every edge
  leads to a state that expects the accumulator the edge leaves; a \<^verbatim>\<open>FinishState\<close>
  leads to a state that expects none. (The branch for \<^verbatim>\<open>expected_sequence is None\<close> is
  never taken: an expected sequence is one of four strings.)
\<close>

definition NUM_PIECES :: nat where "NUM_PIECES = 10"

definition edge_ok :: "(nat \<rightharpoonup> state) \<Rightarrow> state \<Rightarrow> edge \<Rightarrow> bool" where
  "edge_ok av s e =
     (case (case goto e of None \<Rightarrow> Some s | Some g \<Rightarrow> av g) of
        None \<Rightarrow> False
      | Some next_state \<Rightarrow>
          (case sequence_action e of
             None \<Rightarrow> expected_sequence next_state = expected_sequence s
           | Some ACT_SEND \<Rightarrow> expected_sequence next_state = expected_sequence s
           | Some ACT_DEFINE \<Rightarrow> expected_sequence next_state = EXP_DEFINE
           | Some ACT_INCLUDE \<Rightarrow> expected_sequence next_state = EXP_INCLUDE
           | Some ACT_ENDMACRO \<Rightarrow> expected_sequence next_state = EXP_ENDMACRO
           | Some ACT_DISCARD \<Rightarrow> expected_sequence next_state = EXP_NONE))"

fun state_ok :: "(nat \<rightharpoonup> state) \<Rightarrow> state \<Rightarrow> bool" where
  "state_ok av (MatchState n ex edges) =
     (list_all (\<lambda>e. case goto e of None \<Rightarrow> True | Some g \<Rightarrow> av g \<noteq> None) edges
      \<and> length (remdups (map edge_kind (filter (\<lambda>e. edge_text e = None) edges))) = NUM_PIECES
      \<and> list_all (edge_ok av (MatchState n ex edges)) edges)"
| "state_ok av (FinishState n ex None) = True"
| "state_ok av (FinishState n ex (Some g)) =
     (case av g of None \<Rightarrow> False | Some next_state \<Rightarrow> expected_sequence next_state = EXP_NONE)"

definition setup_states :: "state list \<Rightarrow> error + (nat \<rightharpoonup> state)" where
  "setup_states states =
     (let av = map_of (map (\<lambda>s. (state_num s, s)) states)
      in if distinct (map state_num states) \<and> list_all (state_ok av) states
         then Inr av else Inl AssertionError)"

fun verify_expected_sequence :: "sequence option \<Rightarrow> expected \<Rightarrow> bool" where
  "verify_expected_sequence None ex = (ex = EXP_NONE)"
| "verify_expected_sequence (Some (Define d)) ex = (ex = EXP_DEFINE)"
| "verify_expected_sequence (Some (Include i)) ex = (ex = EXP_INCLUDE)"
| "verify_expected_sequence (Some (EndMacro e)) ex = (ex = EXP_ENDMACRO)"

text \<open>
  The edge test, as written:
  \<^verbatim>\<open>edge.kind == piece.kind and edge.text is None or edge.text == piece.get_text()\<close>,
  in which \<^verbatim>\<open>and\<close> binds tighter than \<^verbatim>\<open>or\<close>. The first edge that passes is taken.
\<close>

definition edge_matches :: "edge \<Rightarrow> piece \<Rightarrow> bool" where
  "edge_matches e piece =
     ((edge_kind e = kind piece \<and> edge_text e = None) \<or> edge_text e = Some (get_text piece))"

definition select_edge :: "edge list \<Rightarrow> piece \<Rightarrow> edge option" where
  "select_edge edges piece = find (\<lambda>e. edge_matches e piece) edges"

definition flush :: "sequence option \<Rightarrow> mixed list" where
  "flush sequence = (case sequence of None \<Rightarrow> [] | Some sq \<Rightarrow> map Piece (storeds sq))"

text \<open>
  The sequence action of the taken edge: what is yielded, the accumulator afterwards,
  and \<^verbatim>\<open>force_send\<close>.
\<close>

fun perform_action ::
  "sequence_action option \<Rightarrow> sequence option \<Rightarrow> mixed list \<times> sequence option \<times> bool" where
  "perform_action None sequence = ([], sequence, False)"
| "perform_action (Some ACT_DEFINE) sequence = (flush sequence, Some (Define DefinePiece), False)"
| "perform_action (Some ACT_INCLUDE) sequence = (flush sequence, Some (Include IncludePiece), False)"
| "perform_action (Some ACT_ENDMACRO) sequence = (flush sequence, Some (EndMacro EndMacroPiece), False)"
| "perform_action (Some ACT_DISCARD) sequence = (flush sequence, None, False)"
| "perform_action (Some ACT_SEND) sequence = ([], sequence, True)"

text \<open>
  One piece in a \<^verbatim>\<open>MatchState\<close>: the selected edge's action, then the piece stored in
  the accumulator or yielded, then the edge's \<^verbatim>\<open>store\<close>, then the next state. The result
  is what was yielded, and either the error that ends the run or the new accumulator and
  state.
\<close>

definition match_piece ::
  "state \<Rightarrow> edge list \<Rightarrow> sequence option \<Rightarrow> piece
     \<Rightarrow> mixed list \<times> (error + sequence option \<times> state option)" where
  "match_piece cur_state edges sequence piece =
     (case select_edge edges piece of
        None \<Rightarrow> ([], Inl AssertionError)
      | Some sel_edge \<Rightarrow>
          (case perform_action (sequence_action sel_edge) sequence of
             (out1, seq1, force_send) \<Rightarrow>
               (let (out2, seq2) =
                      (if \<not> force_send \<and> seq1 \<noteq> None
                       then ([], map_option (\<lambda>sq. storeds_append sq piece) seq1)
                       else ([Piece piece], seq1));
                    stored =
                      (case edge_store sel_edge of
                         None \<Rightarrow> Inr seq2
                       | Some w \<Rightarrow>
                           (case seq2 of
                              None \<Rightarrow> Inl AttributeError
                            | Some sq \<Rightarrow> map_sum id Some (store sq piece w)))
                in (out1 @ out2,
                    (case stored of
                       Inl e \<Rightarrow> Inl e
                     | Inr seq3 \<Rightarrow>
                         (case goto sel_edge of
                            None \<Rightarrow> Inr (seq3, Some cur_state)
                          | Some g \<Rightarrow>
                              (case available_states g of
                                 None \<Rightarrow> Inl KeyError
                               | Some s \<Rightarrow> Inr (seq3, Some s))))))))"

text \<open>
  The rank of a state bounds the number of \<^verbatim>\<open>FinishState\<close>s the machine can pass through
  without reading a piece; with the length of the stream it is the termination measure of
  the loop.
\<close>

definition finish_rank :: "nat \<Rightarrow> nat" where
  "finish_rank g = (if g = STATE29 then 2 else if g \<in> {STATE18, STATE28, STATE31, STATE99} then 1 else 0)"

fun state_rank :: "state option \<Rightarrow> nat" where
  "state_rank None = 0"
| "state_rank (Some (MatchState n ex edges)) = 0"
| "state_rank (Some (FinishState n ex None)) = 1"
| "state_rank (Some (FinishState n ex (Some g))) = 1 + finish_rank g"

lemma finish_rank_le: "finish_rank g \<le> 2"
  by (simp add: finish_rank_def)

lemma available_states_rank: "available_states g = Some s \<Longrightarrow> state_rank (Some s) = finish_rank g"
  by (auto simp: available_states_def STATES_def finish_rank_def split: if_splits)

lemma available_states_rank_le: "state_rank (available_states g) \<le> 2"
  by (cases "available_states g") (auto simp: available_states_rank finish_rank_le)

lemma match_piece_next_rank:
  "match_piece (MatchState n ex es) edges sequence piece = (out, Inr (sequence', next)) \<Longrightarrow>
     state_rank next \<le> 2"
  using available_states_rank_le
  by (auto simp: match_piece_def Let_def
      split: option.splits prod.splits sum.splits if_splits)

text \<open>
  The loop of \<^verbatim>\<open>match_sequence\<close>, from a state (\<open>None\<close> once the machine has halted), an
  accumulator and the pieces not yet read: what it yields, and the error that ends it.
  \<^verbatim>\<open>next(stream)\<close> on a stream that has run out raises \<^verbatim>\<open>StopIteration\<close> inside the
  generator, which becomes a \<^verbatim>\<open>RuntimeError\<close> of the generator: both in a \<^verbatim>\<open>MatchState\<close>
  and after the machine has halted, where \<^verbatim>\<open>next(stream)\<close> is followed by \<^verbatim>\<open>assert False\<close>.
  So the generator always ends in an error: at the end of the stream in
  \<^verbatim>\<open>RuntimeError\<close>, and in \<^verbatim>\<open>AssertionError\<close> when the machine halts before the end.
\<close>

function match_loop ::
  "state option \<Rightarrow> sequence option \<Rightarrow> piece list \<Rightarrow> mixed list \<times> error option" where
  "match_loop None sequence stream =
     ([], Some (if stream = [] then RuntimeError else AssertionError))"
| "match_loop (Some (MatchState n ex edges)) sequence stream =
     (if \<not> verify_expected_sequence sequence ex then ([], Some AssertionError)
      else
        (case stream of
           [] \<Rightarrow> ([], Some RuntimeError)
         | piece # stream' \<Rightarrow>
             (case match_piece (MatchState n ex edges) edges sequence piece of
                (out, Inl e) \<Rightarrow> (out, Some e)
              | (out, Inr (sequence', next)) \<Rightarrow>
                  (case match_loop next sequence' stream' of
                     (out', err) \<Rightarrow> (out @ out', err)))))"
| "match_loop (Some (FinishState n ex g)) sequence stream =
     (if \<not> verify_expected_sequence sequence ex then ([], Some AssertionError)
      else
        (let out = (case sequence of None \<Rightarrow> [] | Some sq \<Rightarrow> [Directive sq])
         in case g of
              None \<Rightarrow> (case match_loop None None stream of (out', err) \<Rightarrow> (out @ out', err))
            | Some g' \<Rightarrow>
                (case available_states g' of
                   None \<Rightarrow> (out, Some KeyError)
                 | Some s \<Rightarrow>
                     (case match_loop (Some s) None stream of (out', err) \<Rightarrow> (out @ out', err)))))"
  by pat_completeness auto
termination
  apply (relation "measure (\<lambda>(st, sq, stream). 3 * length stream + state_rank st)")
     apply simp
    apply (auto dest!: match_piece_next_rank[OF sym] simp: available_states_rank)
  done

declare match_loop.simps [simp del]

definition match_sequence :: "piece list \<Rightarrow> mixed list \<times> error option" where
  "match_sequence stream =
     (case setup_states STATES of
        Inl e \<Rightarrow> ([], Some e)
      | Inr av \<Rightarrow> match_loop (av STATE1) None stream)"

section \<open>Harvesting definitions and resolving includes (match2.py, read_file)\<close>

text \<open>
  The macro table is the dictionary \<^verbatim>\<open>macro_definitions\<close>, keyed by the name slot of the
  definition stored. \<^verbatim>\<open>read_file\<close> is a generator that writes to the table between the
  pieces it yields, and the expander reads the table while it pulls pieces from the
  generator. The model of \<^verbatim>\<open>read_file\<close> is therefore the list of its effects in order:
  the pieces yielded, the definitions stored in the table, the warnings printed; then the
  error that ends it, if one does, and the table at the end.
\<close>

type_synonym macros = "string option \<rightharpoonup> define_piece"

datatype warning = MacroAlreadyDefined "string option"

datatype event =
  Yield piece
  | SetMacro "string option" define_piece
  | Warning "position option list" warning

definition MAX_INCLUDE_LEVEL :: nat where "MAX_INCLUDE_LEVEL = 10"

definition is_blank :: "piece \<Rightarrow> bool" where
  "is_blank p = (kind p = PIECE_SPACES \<or> kind p = PIECE_EOL)"

text \<open>
  \<^verbatim>\<open>while len(content) > 0 and content[-1].kind in (PIECE_SPACES, PIECE_EOL): del content[-1]\<close>
\<close>

definition strip_trailing :: "piece list \<Rightarrow> piece list" where
  "strip_trailing ps = rev (dropWhile is_blank (rev ps))"

text \<open>\<^verbatim>\<open>match_sequence(tokenize.tokenize(fname))\<close>, with the error that ends it.\<close>

definition file_items ::
  "(char \<Rightarrow> bool) \<Rightarrow> files \<Rightarrow> string option \<Rightarrow> mixed list \<times> error option" where
  "file_items uni fs fnm =
     (case tokenize uni fs fnm of
        Inl e \<Rightarrow> ([], Some e)
      | Inr ps \<Rightarrow> match_sequence ps)"

definition prepend ::
  "event list \<Rightarrow> event list \<times> error option \<times> macros \<Rightarrow> event list \<times> error option \<times> macros" where
  "prepend evs r = (case r of (evs', err, m) \<Rightarrow> (evs @ evs', err, m))"

text \<open>
  The loop of \<^verbatim>\<open>read_file\<close> over what the recognizer yields for one file. \<open>err\<close> is the
  error that ends the recognizer after its last item, if one does. At an include the
  generator of the included file runs to its end (\<^verbatim>\<open>yield from\<close>) before the loop goes
  on; the include depth is bounded, which with the length of the items is the termination
  measure.
\<close>

function (sequential) read_items ::
  "(char \<Rightarrow> bool) \<Rightarrow> files \<Rightarrow> include_piece list \<Rightarrow> mixed list \<Rightarrow> error option
     \<Rightarrow> define_piece option \<Rightarrow> macros \<Rightarrow> event list \<times> error option \<times> macros" where
  "read_items uni fs includes [] err current_def macro_definitions = ([], err, macro_definitions)"
| "read_items uni fs includes (Directive (Define mixed) # rest) err current_def macro_definitions =
     (case current_def of
        Some cd \<Rightarrow> ([], Some (Fatal [def_pos mixed, def_pos cd] NestedMacro), macro_definitions)
      | None \<Rightarrow>
          (let warn =
             (case macro_definitions (def_name mixed) of
                Some prev_def \<Rightarrow>
                  [Warning [def_pos mixed, def_pos prev_def] (MacroAlreadyDefined (def_name mixed))]
              | None \<Rightarrow> [])
           in if content mixed \<noteq> [] then (warn, Some AssertionError, macro_definitions)
              else prepend warn (read_items uni fs includes rest err (Some mixed) macro_definitions)))"
| "read_items uni fs includes (Directive (Include mixed) # rest) err current_def macro_definitions =
     (case current_def of
        Some cd \<Rightarrow> ([], Some (Fatal [inc_pos mixed] IncludeInMacroDefinition), macro_definitions)
      | None \<Rightarrow>
          (if length includes \<ge> MAX_INCLUDE_LEVEL
           then ([], Some (Fatal [inc_pos mixed] TooManyIncludes), macro_definitions)
           else
             (case file_items uni fs (filename mixed) of
                (items, ferr) \<Rightarrow>
                  (case read_items uni fs (includes @ [mixed]) items ferr None macro_definitions of
                     (evs, Some e, m) \<Rightarrow> (evs, Some e, m)
                   | (evs, None, m) \<Rightarrow>
                       prepend evs (read_items uni fs includes rest err None m)))))"
| "read_items uni fs includes (Directive (EndMacro mixed) # rest) err current_def macro_definitions =
     (case current_def of
        None \<Rightarrow> ([], Some (Fatal [end_pos mixed] EndmacroWithoutDefine), macro_definitions)
      | Some cd \<Rightarrow>
          (let cd' = cd\<lparr>content := strip_trailing (content cd)\<rparr>
           in prepend [SetMacro (def_name cd') cd']
                (read_items uni fs includes rest err None (macro_definitions(def_name cd' \<mapsto> cd')))))"
| "read_items uni fs includes (Piece mixed # rest) err current_def macro_definitions =
     (case current_def of
        None \<Rightarrow> prepend [Yield mixed] (read_items uni fs includes rest err None macro_definitions)
      | Some cd \<Rightarrow>
          (if is_blank mixed \<and> content cd = []
           then read_items uni fs includes rest err current_def macro_definitions
           else if kind mixed = PIECE_EOF
           then ([], Some (Fatal [Some (pos mixed), def_pos cd] EndOfFileInMacroDefinition),
                 macro_definitions)
           else read_items uni fs includes rest err
                  (Some (cd\<lparr>content := content cd @ [mixed]\<rparr>)) macro_definitions))"
  by pat_completeness auto
termination
  by (relation "measures
        [\<lambda>(uni, fs, includes, items, err, cd, m). MAX_INCLUDE_LEVEL - length includes,
         \<lambda>(uni, fs, includes, items, err, cd, m). length items]")
     auto

declare read_items.simps [simp del]

definition read_file ::
  "(char \<Rightarrow> bool) \<Rightarrow> files \<Rightarrow> string option \<Rightarrow> macros \<Rightarrow> include_piece list
     \<Rightarrow> event list \<times> error option \<times> macros" where
  "read_file uni fs fnm macro_definitions includes =
     (if \<not> length includes \<le> MAX_INCLUDE_LEVEL then ([], Some AssertionError, macro_definitions)
      else
        (case file_items uni fs fnm of
           (items, err) \<Rightarrow> read_items uni fs includes items err None macro_definitions))"

section \<open>The expander (expand.py)\<close>

subsection \<open>Getters\<close>

text \<open>
  A getter hands out one piece at a time, and \<open>None\<close> at the end. \<^verbatim>\<open>StreamGetter\<close> pulls
  from the generator \<^verbatim>\<open>read_file\<close>: pulling the next piece runs the generator up to its next
  \<^verbatim>\<open>yield\<close>, so the definitions it stores on the way are in the macro table from then on,
  and the error that ends the generator ends the pull. \<^verbatim>\<open>ListGetter\<close> walks a list; it is
  modelled by the elements it has not handed out yet. Since a pull can change the macro
  table, \<open>get\<close> takes the table and returns it.
\<close>

datatype getter =
  StreamGetter "event list" "error option"
  | ListGetter "piece list"

fun pull :: "event list \<Rightarrow> error option \<Rightarrow> macros \<Rightarrow> error + (piece option \<times> getter \<times> macros)" where
  "pull [] None m = Inr (None, StreamGetter [] None, m)"
| "pull [] (Some e) m = Inl e"
| "pull (Yield p # evs) err m = Inr (Some p, StreamGetter evs err, m)"
| "pull (SetMacro n d # evs) err m = pull evs err (m(n \<mapsto> d))"
| "pull (Warning ps w # evs) err m = pull evs err m"

fun get :: "getter \<Rightarrow> macros \<Rightarrow> error + (piece option \<times> getter \<times> macros)" where
  "get (ListGetter []) m = Inr (None, ListGetter [], m)"
| "get (ListGetter (p # ps)) m = Inr (Some p, ListGetter ps, m)"
| "get (StreamGetter evs err) m = pull evs err m"

fun getter_size :: "getter \<Rightarrow> nat" where
  "getter_size (StreamGetter evs err) = length evs"
| "getter_size (ListGetter ps) = length ps"

lemma pull_size_le: "pull evs err m = Inr (r, g', m') \<Longrightarrow> getter_size g' \<le> length evs"
  by (induction evs err m rule: pull.induct) auto

lemma pull_size_less: "pull evs err m = Inr (Some p, g', m') \<Longrightarrow> getter_size g' < length evs"
  by (induction evs err m rule: pull.induct) auto

lemma get_size_le: "get g m = Inr (r, g', m') \<Longrightarrow> getter_size g' \<le> getter_size g"
  by (induction g m rule: get.induct) (auto dest: pull_size_le)

lemma get_size_less: "get g m = Inr (Some p, g', m') \<Longrightarrow> getter_size g' < getter_size g"
  by (induction g m rule: get.induct) (auto dest: pull_size_less)

subsection \<open>Parsing the arguments of a call\<close>

text \<open>The two ways argument scanning reports that the input ran out.\<close>

datatype scan_error = NO_INPUT | EOF_SEEN

text \<open>
  \<^verbatim>\<open>store_til_matching_close\<close>: the loop \<^verbatim>\<open>while level > 0\<close>, which appends to \<open>pieces\<close>
  until the parenthesis that closes the open one, and the function, which starts it at
  level 1.
\<close>

function close_loop ::
  "getter \<Rightarrow> macros \<Rightarrow> piece list \<Rightarrow> nat
     \<Rightarrow> error + (scan_error option \<times> piece list \<times> getter \<times> macros)" where
  "close_loop g m pieces level =
     (if level > 0 then
        (case get g m of
           Inl e \<Rightarrow> Inl e
         | Inr (None, g', m') \<Rightarrow> Inr (Some NO_INPUT, pieces, g', m')
         | Inr (Some piece, g', m') \<Rightarrow>
             (if kind piece = PIECE_EOF then Inr (Some EOF_SEEN, pieces, g', m')
              else close_loop g' m' (pieces @ [piece])
                     (if kind piece = PIECE_PAROPEN then level + 1
                      else if kind piece = PIECE_PARCLOSE then level - 1
                      else level)))
      else Inr (None, pieces, g, m))"
  by pat_completeness auto
termination
  by (relation "measure (\<lambda>(g, m, pieces, level). getter_size g)")
     (auto dest: get_size_less)

declare close_loop.simps [simp del]

definition store_til_matching_close ::
  "getter \<Rightarrow> macros \<Rightarrow> piece list
     \<Rightarrow> error + (scan_error option \<times> piece list \<times> getter \<times> macros)" where
  "store_til_matching_close g m pieces = close_loop g m pieces 1"

lemma close_loop_size:
  "close_loop g m pieces level = Inr (r, pieces', g', m') \<Longrightarrow> getter_size g' \<le> getter_size g"
proof (induction g m pieces level rule: close_loop.induct)
  case (1 g m pieces level)
  show ?case
  proof (cases "level > 0")
    case False
    with "1.prems" show ?thesis by (simp add: close_loop.simps)
  next
    case True
    show ?thesis
    proof (cases "get g m")
      case (Inl e)
      with True "1.prems" show ?thesis by (simp add: close_loop.simps)
    next
      case (Inr t)
      obtain r1 g1 m1 where t: "t = (r1, g1, m1)" by (cases t)
      show ?thesis
      proof (cases r1)
        case None
        with True Inr t "1.prems" get_size_le[of g m None g1 m1] show ?thesis
          by (simp add: close_loop.simps)
      next
        case (Some piece)
        have s: "getter_size g1 < getter_size g"
          using get_size_less[of g m piece g1 m1] Inr t Some by simp
        show ?thesis
        proof (cases "kind piece = PIECE_EOF")
          case True
          with \<open>level > 0\<close> Inr t Some "1.prems" s show ?thesis
            by (simp add: close_loop.simps)
        next
          case False
          from "1.IH"[OF \<open>level > 0\<close> Inr[unfolded t Some] refl refl refl False]
            \<open>level > 0\<close> Inr t Some "1.prems" False s
          show ?thesis by (simp add: close_loop.simps)
        qed
      qed
    qed
  qed
qed

text \<open>
  \<^verbatim>\<open>store_argument\<close>: the loop, with its three variables, and the function, which starts
  it. The result of a scan that ran out of input is \<open>Inl\<close> of how; otherwise it is the
  argument with the flag that says whether the outer parentheses were dropped, and the
  comma or closing parenthesis that ended the argument.
\<close>

function argument_loop ::
  "getter \<Rightarrow> macros \<Rightarrow> nat option \<Rightarrow> bool \<Rightarrow> piece list
     \<Rightarrow> error + ((scan_error + (piece list \<times> bool) \<times> piece) \<times> getter \<times> macros)" where
  "argument_loop g m first_close strip_leading argument =
     (case get g m of
        Inl e \<Rightarrow> Inl e
      | Inr (None, g', m') \<Rightarrow> Inr (Inl NO_INPUT, g', m')
      | Inr (Some piece, g', m') \<Rightarrow>
          (if kind piece = PIECE_EOF then Inr (Inl EOF_SEEN, g', m')
           else if kind piece = PIECE_COMMA \<or> kind piece = PIECE_PARCLOSE then
             (let argument' = strip_trailing argument
              in case first_close of
                   None \<Rightarrow> Inr (Inr ((argument', False), piece), g', m')
                 | Some fc \<Rightarrow>
                     (case argument' of
                        [] \<Rightarrow> Inl IndexError
                      | a # as \<Rightarrow>
                          (if kind a = PIECE_PAROPEN \<and> length argument' - 1 = fc
                           then Inr (Inr ((butlast (tl argument'), True), piece), g', m')
                           else Inr (Inr ((argument', False), piece), g', m'))))
           else
             (let stored = (\<not> strip_leading \<or> \<not> is_blank piece);
                  argument1 = (if stored then argument @ [piece] else argument);
                  strip1 = (if stored then False else strip_leading)
              in if kind piece = PIECE_PAROPEN then
                   (case store_til_matching_close g' m' argument1 of
                      Inl e \<Rightarrow> Inl e
                    | Inr (Some err, argument2, g'', m'') \<Rightarrow> Inr (Inl err, g'', m'')
                    | Inr (None, argument2, g'', m'') \<Rightarrow>
                        argument_loop g'' m''
                          (if first_close = None then Some (length argument2 - 1) else first_close)
                          strip1 argument2)
                 else argument_loop g' m' first_close strip1 argument1)))"
  by pat_completeness auto
termination
  apply (relation "measure (\<lambda>(g, m, first_close, strip_leading, argument). getter_size g)")
    apply simp
   apply (auto dest: get_size_less simp: store_til_matching_close_def)
  apply (frule get_size_less, frule close_loop_size, linarith)
  done

declare argument_loop.simps [simp del]

definition store_argument ::
  "getter \<Rightarrow> macros \<Rightarrow> error + ((scan_error + (piece list \<times> bool) \<times> piece) \<times> getter \<times> macros)" where
  "store_argument g m = argument_loop g m None True []"

lemma argument_loop_size:
  "argument_loop g m fc sl argument = Inr (Inr r, g', m') \<Longrightarrow> getter_size g' < getter_size g"
proof (induction g m fc sl argument rule: argument_loop.induct)
  case (1 g m first_close strip_leading argument)
  from "1.prems" obtain piece g1 m1 where gt: "get g m = Inr (Some piece, g1, m1)"
    by (subst (asm) argument_loop.simps) (auto split: sum.splits option.splits)
  have s: "getter_size g1 < getter_size g" using get_size_less[OF gt] .
  from "1.prems" gt have ne: "kind piece \<noteq> PIECE_EOF"
    by (subst (asm) argument_loop.simps) (auto split: if_splits)
  show ?case
  proof (cases "kind piece = PIECE_COMMA \<or> kind piece = PIECE_PARCLOSE")
    case True
    with "1.prems" gt ne s show ?thesis
      by (subst (asm) argument_loop.simps)
         (auto simp: Let_def split: option.splits list.splits if_splits)
  next
    case nt: False
    define stored where "stored = (\<not> strip_leading \<or> \<not> is_blank piece)"
    define argument1 where "argument1 = (if stored then argument @ [piece] else argument)"
    define strip1 where "strip1 = (if stored then False else strip_leading)"
    show ?thesis
    proof (cases "kind piece = PIECE_PAROPEN")
      case False
      from "1.prems" gt ne nt False
      have "argument_loop g1 m1 first_close strip1 argument1 = Inr (Inr r, g', m')"
        by (subst (asm) argument_loop.simps)
           (simp add: Let_def stored_def argument1_def strip1_def)
      from "1.IH"(2)[OF gt refl refl refl ne nt stored_def argument1_def strip1_def False this] s
      show ?thesis by simp
    next
      case True
      from "1.prems" gt ne nt True obtain argument2 g2 m2 where
        c: "store_til_matching_close g1 m1 argument1 = Inr (None, argument2, g2, m2)"
        and r: "argument_loop g2 m2
                  (if first_close = None then Some (length argument2 - 1) else first_close)
                  strip1 argument2 = Inr (Inr r, g', m')"
        by (subst (asm) argument_loop.simps)
           (auto simp: Let_def stored_def argument1_def strip1_def
                 split: sum.splits option.splits prod.splits)
      from close_loop_size[OF c[unfolded store_til_matching_close_def]]
      have "getter_size g2 \<le> getter_size g1" .
      moreover from "1.IH"(1)[OF gt refl refl refl ne nt stored_def argument1_def strip1_def True c refl refl refl refl r]
      have "getter_size g' < getter_size g2" .
      ultimately show ?thesis using s by simp
    qed
  qed
qed

text \<open>
  The message of both loops of \<^verbatim>\<open>find_arguments\<close> is built from \<^verbatim>\<open>macro_def.name\<close> before
  \<^verbatim>\<open>report_error\<close> is called. For the name \<^verbatim>\<open>glue\<close> with no definition \<^verbatim>\<open>macro_def\<close> is
  \<^verbatim>\<open>None\<close>, and reading its \<^verbatim>\<open>name\<close> raises \<^verbatim>\<open>AttributeError\<close>.
\<close>

definition missing_open :: "position \<Rightarrow> define_piece option \<Rightarrow> error" where
  "missing_open call_pos macro_def =
     (case macro_def of
        None \<Rightarrow> AttributeError
      | Some d \<Rightarrow> Fatal [Some call_pos] (MissingOpenParentheses (def_name d)))"

definition missing_close :: "position \<Rightarrow> define_piece option \<Rightarrow> error" where
  "missing_close call_pos macro_def =
     (case macro_def of
        None \<Rightarrow> AttributeError
      | Some d \<Rightarrow> Fatal [Some call_pos] (MissingClosingParentheses (def_name d)))"

text \<open>The first loop of \<^verbatim>\<open>find_arguments\<close>: skip whitespace up to the open parenthesis.\<close>

function find_open ::
  "getter \<Rightarrow> macros \<Rightarrow> position \<Rightarrow> define_piece option \<Rightarrow> error + getter \<times> macros" where
  "find_open g m call_pos macro_def =
     (case get g m of
        Inl e \<Rightarrow> Inl e
      | Inr (None, g', m') \<Rightarrow> Inl (missing_open call_pos macro_def)
      | Inr (Some piece, g', m') \<Rightarrow>
          (if kind piece = PIECE_SPACES then find_open g' m' call_pos macro_def
           else if kind piece \<noteq> PIECE_PAROPEN then Inl (missing_open call_pos macro_def)
           else Inr (g', m')))"
  by pat_completeness auto
termination
  by (relation "measure (\<lambda>(g, m, call_pos, macro_def). getter_size g)")
     (auto dest: get_size_less)

declare find_open.simps [simp del]

text \<open>
  The second loop of \<^verbatim>\<open>find_arguments\<close>: arguments up to the closing parenthesis, with
  the arguments collected so far.
\<close>

function collect_arguments ::
  "getter \<Rightarrow> macros \<Rightarrow> position \<Rightarrow> define_piece option \<Rightarrow> piece list list
     \<Rightarrow> error + piece list list \<times> getter \<times> macros" where
  "collect_arguments g m call_pos macro_def arguments =
     (case store_argument g m of
        Inl e \<Rightarrow> Inl e
      | Inr (Inl err, g', m') \<Rightarrow> Inl (missing_close call_pos macro_def)
      | Inr (Inr ((argpieces, stripped), piece), g', m') \<Rightarrow>
          (if kind piece = PIECE_PARCLOSE then
             (if length arguments = 0 \<and> length argpieces = 0 \<and> \<not> stripped
              then Inr (arguments, g', m')
              else Inr (arguments @ [argpieces], g', m'))
           else if kind piece \<noteq> PIECE_COMMA then Inl AssertionError
           else collect_arguments g' m' call_pos macro_def (arguments @ [argpieces])))"
  by pat_completeness auto
termination
  by (relation "measure (\<lambda>(g, m, call_pos, macro_def, arguments). getter_size g)")
     (auto dest: argument_loop_size simp: store_argument_def)

declare collect_arguments.simps [simp del]

definition find_arguments ::
  "getter \<Rightarrow> macros \<Rightarrow> position \<Rightarrow> define_piece option
     \<Rightarrow> error + piece list list \<times> getter \<times> macros" where
  "find_arguments g m call_pos macro_def =
     (case find_open g m call_pos macro_def of
        Inl e \<Rightarrow> Inl e
      | Inr (g', m') \<Rightarrow> collect_arguments g' m' call_pos macro_def [])"

lemma find_open_size:
  "find_open g m call_pos macro_def = Inr (g', m') \<Longrightarrow> getter_size g' < getter_size g"
proof (induction g m call_pos macro_def rule: find_open.induct)
  case (1 g m call_pos macro_def)
  from "1.prems" obtain piece g1 m1 where gt: "get g m = Inr (Some piece, g1, m1)"
    by (subst (asm) find_open.simps) (auto split: sum.splits option.splits)
  have s: "getter_size g1 < getter_size g" using get_size_less[OF gt] .
  show ?case
  proof (cases "kind piece = PIECE_SPACES")
    case True
    with "1.prems" gt have "find_open g1 m1 call_pos macro_def = Inr (g', m')"
      by (subst (asm) find_open.simps) simp
    from "1.IH"[OF gt refl refl refl True this] s show ?thesis by simp
  next
    case False
    with "1.prems" gt s show ?thesis
      by (subst (asm) find_open.simps) (auto split: if_splits)
  qed
qed

lemma collect_arguments_size:
  "collect_arguments g m call_pos macro_def arguments = Inr (args, g', m') \<Longrightarrow>
     getter_size g' < getter_size g"
proof (induction g m call_pos macro_def arguments rule: collect_arguments.induct)
  case (1 g m call_pos macro_def arguments)
  from "1.prems" obtain argpieces stripped piece g1 m1 where
    sa: "store_argument g m = Inr (Inr ((argpieces, stripped), piece), g1, m1)"
    by (subst (asm) collect_arguments.simps) (auto split: sum.splits)
  have s: "getter_size g1 < getter_size g"
    using argument_loop_size[OF sa[unfolded store_argument_def]] .
  show ?case
  proof (cases "kind piece = PIECE_PARCLOSE")
    case True
    with "1.prems" sa s show ?thesis
      by (subst (asm) collect_arguments.simps) (auto split: if_splits)
  next
    case False
    with "1.prems" sa have c: "kind piece = PIECE_COMMA"
      and r: "collect_arguments g1 m1 call_pos macro_def (arguments @ [argpieces]) = Inr (args, g', m')"
      by (subst (asm) collect_arguments.simps; auto split: if_splits)+
    from c have "\<not> kind piece \<noteq> PIECE_COMMA" by simp
    from "1.IH"[OF sa refl refl refl refl refl False this r] s show ?thesis by simp
  qed
qed

lemma find_arguments_size:
  "find_arguments g m call_pos macro_def = Inr (args, g', m') \<Longrightarrow> getter_size g' < getter_size g"
  by (auto simp: find_arguments_def split: sum.splits
      dest!: find_open_size collect_arguments_size)

subsection \<open>Expansion\<close>

definition MAX_EXPAND_LEVEL :: nat where "MAX_EXPAND_LEVEL = 10"

type_synonym params = "string \<rightharpoonup> piece list"
type_synonym nesting = "(piece \<times> define_piece) list"

definition glue_text :: "piece list list \<Rightarrow> string" where
  "glue_text arguments = concat (map get_text (concat arguments))"

text \<open>
  A generator of pieces is modelled by the pieces it yields, in order, and the error that
  ends it, if one does. What was yielded before the error has been handed on.
\<close>

type_synonym yielded = "piece list \<times> error option"

definition yield :: "piece list \<Rightarrow> yielded \<Rightarrow> yielded" where
  "yield ps r = (case r of (qs, e) \<Rightarrow> (ps @ qs, e))"

definition raise :: "error \<Rightarrow> yielded" where
  "raise e = ([], Some e)"

text \<open>
  \<^verbatim>\<open>expand_stream\<close>, with the loop that fills \<^verbatim>\<open>arg_table\<close>. The frame list
  \<^verbatim>\<open>expand_nesting\<close> is passed down with the new frame appended; going on with the list
  as it was is the \<^verbatim>\<open>del expand_nesting[-1]\<close>. The value of an argument is
  \<^verbatim>\<open>list(expand_stream(...))\<close>: an error in it ends the call before anything of the call
  is yielded. The content is expanded by \<^verbatim>\<open>yield from\<close>: what it yields before an error is
  yielded.

  The depth report is the call
  \<^verbatim>\<open>report.report_error([...], msg, ordered_pos=True)\<close>, and \<^verbatim>\<open>report_error(lines, mesg,
  type='error', keep_running=False)\<close> has no parameter of that name: the call raises
  \<^verbatim>\<open>TypeError\<close>.
\<close>

function expand_stream ::
    "getter \<Rightarrow> macros \<Rightarrow> params \<Rightarrow> nesting \<Rightarrow> yielded"
  and expand_arguments ::
    "macros \<Rightarrow> params \<Rightarrow> nesting \<Rightarrow> (piece \<times> piece list) list \<Rightarrow> params \<Rightarrow> error + params"
where
  "expand_stream g macro_definitions parameter_values expand_nesting =
     (case get g macro_definitions of
        Inl e \<Rightarrow> raise e
      | Inr (None, g1, m1) \<Rightarrow> ([], None)
      | Inr (Some piece, g1, m1) \<Rightarrow>
          (if kind piece \<noteq> PIECE_IDENTIFIER
           then yield [piece] (expand_stream g1 m1 parameter_values expand_nesting)
           else
             (case parameter_values (get_text piece) of
                Some arg_value \<Rightarrow>
                  yield arg_value (expand_stream g1 m1 parameter_values expand_nesting)
              | None \<Rightarrow>
                  (if m1 (Some (get_text piece)) = None \<and> get_text piece \<noteq> ''glue''
                   then yield [piece] (expand_stream g1 m1 parameter_values expand_nesting)
                   else
                     (case find_arguments g1 m1 (pos piece) (m1 (Some (get_text piece))) of
                        Inl e \<Rightarrow> raise e
                      | Inr (arguments, g2, m2) \<Rightarrow>
                          (case m1 (Some (get_text piece)) of
                             None \<Rightarrow>
                               yield [StrPiece PIECE_TEXT (pos piece) (glue_text arguments)]
                                 (expand_stream g2 m2 parameter_values expand_nesting)
                           | Some macro_def \<Rightarrow>
                               (if length (parameters macro_def) \<noteq> length arguments
                                then raise (Fatal [def_pos macro_def, Some (pos piece)]
                                       (IncorrectNumberOfArgument (def_name macro_def)
                                          (length (parameters macro_def)) (length arguments)))
                                else if length (expand_nesting @ [(piece, macro_def)]) > MAX_EXPAND_LEVEL
                                then raise TypeError
                                else
                                  (case expand_arguments m2 parameter_values
                                          (expand_nesting @ [(piece, macro_def)])
                                          (zip (parameters macro_def) arguments) Map.empty of
                                     Inl e \<Rightarrow> raise e
                                   | Inr arg_table \<Rightarrow>
                                       (case expand_stream (ListGetter (content macro_def)) m2 arg_table
                                               (expand_nesting @ [(piece, macro_def)]) of
                                          (body, Some e) \<Rightarrow> (body, Some e)
                                        | (body, None) \<Rightarrow>
                                            yield body
                                              (expand_stream g2 m2 parameter_values
                                                 expand_nesting))))))))))"
| "expand_arguments macro_definitions parameter_values expand_nesting [] arg_table = Inr arg_table"
| "expand_arguments macro_definitions parameter_values expand_nesting ((argpiece, argval) # rest)
       arg_table =
     (if arg_table (get_text argpiece) \<noteq> None then Inl AssertionError
      else
        (case expand_stream (ListGetter argval) macro_definitions parameter_values expand_nesting of
           (value, Some e) \<Rightarrow> Inl e
         | (value, None) \<Rightarrow>
             expand_arguments macro_definitions parameter_values expand_nesting rest
               (arg_table(get_text argpiece \<mapsto> value))))"
  by pat_completeness auto
termination
  apply (relation "measures
      [\<lambda>x. case x of
              Inl (g, m, pv, en) \<Rightarrow> Suc MAX_EXPAND_LEVEL - length en
            | Inr (m, pv, en, args, tab) \<Rightarrow> Suc MAX_EXPAND_LEVEL - length en,
       \<lambda>x. case x of
              Inl (g, m, pv, en) \<Rightarrow> getter_size g
            | Inr (m, pv, en, args, tab) \<Rightarrow> Suc (sum_list (map (\<lambda>(p, v). Suc (length v)) args))]")
  apply (auto dest: get_size_less find_arguments_size simp: MAX_EXPAND_LEVEL_def)
  apply (frule get_size_less, frule find_arguments_size, linarith)+
  done

declare expand_stream.simps [simp del]

subsection \<open>The program (main.py, run)\<close>

text \<open>
  \<^verbatim>\<open>run\<close> from the empty macro table on: every piece the expander yields, except
  end-of-file pieces, is written to the output as it comes. The result is the text
  written, and the error that ends the run, if one does. The argument is the file named on
  the command line. Without one, \<^verbatim>\<open>process_commandline\<close> falls off its end and returns
  \<^verbatim>\<open>None\<close> (its \<^verbatim>\<open>return cla\<close> is inside \<^verbatim>\<open>if len(args) == 1\<close>), and the first use of
  \<^verbatim>\<open>cla\<close> raises \<^verbatim>\<open>AttributeError\<close>. The options that only print the pieces are not
  modelled.
\<close>

definition run :: "(char \<Rightarrow> bool) \<Rightarrow> files \<Rightarrow> string option \<Rightarrow> string \<times> error option" where
  "run uni fs in_fname =
     (case in_fname of
        None \<Rightarrow> ([], Some AttributeError)
      | Some f \<Rightarrow>
          (case read_file uni fs (Some f) Map.empty [] of
             (evs, err, m) \<Rightarrow>
               (case expand_stream (StreamGetter evs err) Map.empty Map.empty [] of
                  (ps, e) \<Rightarrow> (pieces_text (filter (\<lambda>p. kind p \<noteq> PIECE_EOF) ps), e))))"

section \<open>Stating what a getter hands out\<close>

text \<open>
  \<open>hands_out g m ps g' m'\<close>: from the getter \<open>g\<close> and the macro table \<open>m\<close>, the next
  pulls give the pieces \<open>ps\<close>, in order, and leave the getter \<open>g'\<close> and the table \<open>m'\<close>.
  The theorems about calls are stated with it, so that they hold for a list getter and for
  the stream getter alike.
\<close>

fun hands_out :: "getter \<Rightarrow> macros \<Rightarrow> piece list \<Rightarrow> getter \<Rightarrow> macros \<Rightarrow> bool" where
  "hands_out g m [] g' m' = (g' = g \<and> m' = m)"
| "hands_out g m (p # ps) g' m' =
     (case get g m of
        Inr (Some q, g1, m1) \<Rightarrow> q = p \<and> hands_out g1 m1 ps g' m'
      | _ \<Rightarrow> False)"

declare hands_out.simps(2) [simp del]

lemma hands_out_Cons:
  "hands_out g m (p # ps) g' m' =
     (\<exists>g1 m1. get g m = Inr (Some p, g1, m1) \<and> hands_out g1 m1 ps g' m')"
  by (auto simp: hands_out.simps(2) split: sum.splits option.splits)

lemma hands_out_append:
  "hands_out g m (xs @ ys) g' m' =
     (\<exists>g1 m1. hands_out g m xs g1 m1 \<and> hands_out g1 m1 ys g' m')"
proof (induction xs arbitrary: g m)
  case Nil
  show ?case by simp
next
  case (Cons x xs)
  show ?case unfolding append_Cons hands_out_Cons Cons.IH by blast
qed

section \<open>What an argument is and when it is unwrapped\<close>

text \<open>
  The pieces of an argument, counted: \<open>opens\<close> and \<open>closes\<close> are the numbers of open
  and closing parentheses in a list of pieces. The closing parenthesis that matches an
  open parenthesis at the head of a list is at the first position up to which there are
  as many closing as open ones. An argument has an outer pair when its first piece is an
  open parenthesis and the matching closing one is its last piece; unwrapping drops that
  pair and says so.
\<close>

definition opens :: "piece list \<Rightarrow> nat" where
  "opens ps = length (filter (\<lambda>p. kind p = PIECE_PAROPEN) ps)"

definition closes :: "piece list \<Rightarrow> nat" where
  "closes ps = length (filter (\<lambda>p. kind p = PIECE_PARCLOSE) ps)"

definition matching_close :: "piece list \<Rightarrow> nat option" where
  "matching_close arg =
     find (\<lambda>i. closes (take (Suc i) arg) = opens (take (Suc i) arg)) [0..<length arg]"

definition outer_pair :: "piece list \<Rightarrow> bool" where
  "outer_pair arg =
     (arg \<noteq> [] \<and> kind (hd arg) = PIECE_PAROPEN \<and> matching_close arg = Some (length arg - 1))"

definition unwrap :: "piece list \<Rightarrow> piece list \<times> bool" where
  "unwrap arg = (if outer_pair arg then (butlast (tl arg), True) else (arg, False))"

text \<open>
  The pieces between the start of an argument and the comma or closing parenthesis that
  ends it: no end-of-file piece, every parenthesis closed, and every comma and closing
  parenthesis inside an open parenthesis.
\<close>

definition well_formed_argument :: "piece list \<Rightarrow> bool" where
  "well_formed_argument raw =
     (list_all (\<lambda>p. kind p \<noteq> PIECE_EOF) raw
      \<and> closes raw = opens raw
      \<and> list_all
          (\<lambda>i. (kind (raw ! i) = PIECE_COMMA \<or> kind (raw ! i) = PIECE_PARCLOSE)
                  \<longrightarrow> closes (take i raw) < opens (take i raw))
          [0..<length raw])"

text \<open>
  The trigger in the spec's words: the first piece is \<^verbatim>\<open>ParenOpen\<close> and the position of the
  first \<^verbatim>\<open>ParenClose\<close> is the position of the last piece.
\<close>

definition spec_unwrap_trigger :: "piece list \<Rightarrow> bool" where
  "spec_unwrap_trigger arg =
     (arg \<noteq> [] \<and> kind (hd arg) = PIECE_PAROPEN
      \<and> (case find (\<lambda>p. kind p = PIECE_PARCLOSE) arg of
            None \<Rightarrow> False
          | Some p \<Rightarrow> pos p = pos (last arg)))"

section \<open>The arguments of a call, expanded\<close>

text \<open>
  The values of the arguments of a call are the expansions of the arguments as parsed, one
  after the other, each from a list getter of its own. The first of them that ends in an
  error ends the call; when none does, each parameter name is bound to what the expansion
  of its argument yielded.
\<close>

fun first_error :: "yielded list \<Rightarrow> error option" where
  "first_error [] = None"
| "first_error ((ps, Some e) # rs) = Some e"
| "first_error ((ps, None) # rs) = first_error rs"

definition argument_values :: "macros \<Rightarrow> params \<Rightarrow> nesting \<Rightarrow> piece list list \<Rightarrow> yielded list" where
  "argument_values m pv en arguments = map (\<lambda>a. expand_stream (ListGetter a) m pv en) arguments"

definition bind_parameters :: "piece list \<Rightarrow> yielded list \<Rightarrow> params" where
  "bind_parameters ps vals = map_of (zip (map get_text ps) (map fst vals))"

section \<open>Keywords, lexed pieces and plain inputs\<close>

text \<open>
  The texts on the edges of the recognizer are the three directive keywords. A piece of
  the lexer that is neither an identifier nor a comment is never spelled like one of them:
  an identifier is found wherever a word starts, and every other pattern starts with a
  character no keyword starts with. A comment line inside a block comment can consist of
  a keyword alone. Tokenizing keeps the column at a position where, if a letter or
  underscore stands there, a word starts.
\<close>

definition keyword :: "string \<Rightarrow> bool" where
  "keyword t = (t = ''define'' \<or> t = ''include'' \<or> t = ''endmacro'')"

definition lexed :: "piece \<Rightarrow> bool" where
  "lexed p = (if kind p = PIECE_IDENTIFIER \<or> kind p = PIECE_COMMENT then True
              else \<not> keyword (get_text p))"

definition at_word_start :: "(char \<Rightarrow> bool) \<Rightarrow> string \<Rightarrow> nat \<Rightarrow> bool" where
  "at_word_start uni line col =
     (if col < length line \<and> ident_start (line ! col)
      then col = 0 \<or> \<not> word_char uni (line ! (col - 1)) else True)"

text \<open>
  An edge matches a piece by kind and optional text: the kinds are equal, and a text on
  the edge is the text of the piece.
\<close>

definition kind_text_matches :: "piece \<Rightarrow> edge \<Rightarrow> bool" where
  "kind_text_matches piece e =
     (edge_kind e = kind piece
      \<and> (case edge_text e of None \<Rightarrow> True | Some t \<Rightarrow> t = get_text piece))"

text \<open>
  The edges of a state, and what it is for the test of \<^verbatim>\<open>match_sequence\<close> to agree with
  matching by kind and optional text on a list of edges: both select the same edge, and
  there is one.
\<close>

fun state_edges :: "state \<Rightarrow> edge list" where
  "state_edges (MatchState n ex edges) = edges"
| "state_edges (FinishState n ex g) = []"

definition agrees :: "piece \<Rightarrow> edge list \<Rightarrow> bool" where
  "agrees piece edges =
     (edges = [] \<or> (select_edge edges piece = find (kind_text_matches piece) edges
                    \<and> select_edge edges piece \<noteq> None))"

text \<open>
  A plain piece is any piece but an identifier spelled \<^verbatim>\<open>define\<close>, \<^verbatim>\<open>include\<close>,
  \<^verbatim>\<open>endmacro\<close> or \<^verbatim>\<open>glue\<close>. A file whose pieces are plain has no directive, so that no
  macro is defined, and does not call the built-in macro.
\<close>

definition plain_piece :: "piece \<Rightarrow> bool" where
  "plain_piece p =
     (kind p \<noteq> PIECE_IDENTIFIER
      \<or> get_text p \<notin> set [''define'', ''include'', ''endmacro'', ''glue''])"

definition plain_input :: "(char \<Rightarrow> bool) \<Rightarrow> files \<Rightarrow> string option \<Rightarrow> bool" where
  "plain_input uni fs fnm =
     (case tokenize uni fs fnm of Inl e \<Rightarrow> False | Inr ps \<Rightarrow> list_all plain_piece ps)"

section \<open>The lexer spells its input\<close>

lemma tokenize_line_text:
  "pieces_text (fst (tokenize_line uni fnm ln line col cm)) = drop col line"
proof (induction uni fnm ln line col cm rule: tokenize_line.induct)
  case (1 uni fnm ln line col cm)
  show ?case
  proof (cases "col < length line")
    case False
    then show ?thesis by (simp add: tokenize_line.simps pieces_text_def)
  next
    case True
    obtain ps col' cm' where st: "token_step uni fnm ln line col cm = (ps, col', cm')"
      by (cases "token_step uni fnm ln line col cm")
    obtain rest cme where r: "tokenize_line uni fnm ln line col' cm' = (rest, cme)"
      by (cases "tokenize_line uni fnm ln line col' cm'")
    from token_step_props[OF True st]
    have b: "col < col'" "col' \<le> length line"
      and t: "concat (map get_text ps) = take (col' - col) (drop col line)" by auto
    from "1.IH"[OF True st[symmetric] refl] r
    have ih: "pieces_text rest = drop col' line" by simp
    have "pieces_text (ps @ rest) = take (col' - col) (drop col line) @ drop col' line"
      using t ih by (simp add: pieces_text_def)
    also have "\<dots> = drop col line"
    proof -
      have "drop col' line = drop (col' - col) (drop col line)" using b by simp
      then show ?thesis by (simp only: append_take_drop_id)
    qed
    finally show ?thesis using True st r by (simp add: tokenize_line.simps)
  qed
qed

lemma split_lines_concat: "concat (split_lines cur s) = cur @ s"
  by (induction s arbitrary: cur) auto

lemma split_lines_text: "concat (split_lines [] s) = s"
  by (simp add: split_lines_concat)

lemma tokenize_lines_text:
  "\<exists>ps. tokenize_lines uni fnm ln lns cm
          = ps @ [StrPiece PIECE_EOF (Position (ln + length lns) fnm (Some 0)) ''EOF-EOF-EOF'']
        \<and> pieces_text ps = concat lns"
proof (induction lns arbitrary: ln cm)
  case Nil
  show ?case by (simp add: pieces_text_def)
next
  case (Cons line lns)
  obtain ps cm' where l: "tokenize_line uni fnm ln line 0 cm = (ps, cm')"
    by (cases "tokenize_line uni fnm ln line 0 cm")
  from tokenize_line_text[of uni fnm ln line 0 cm] l have t: "pieces_text ps = line" by simp
  from Cons.IH[of "ln + 1" cm'] obtain qs where
    q: "tokenize_lines uni fnm (ln + 1) lns cm'
          = qs @ [StrPiece PIECE_EOF (Position (ln + 1 + length lns) fnm (Some 0)) ''EOF-EOF-EOF'']"
    and qt: "pieces_text qs = concat lns" by blast
  have "tokenize_lines uni fnm ln (line # lns) cm
          = (ps @ qs) @ [StrPiece PIECE_EOF (Position (ln + length (line # lns)) fnm (Some 0)) ''EOF-EOF-EOF'']"
    using l q by simp
  moreover have "pieces_text (ps @ qs) = concat (line # lns)"
    using t qt by (simp add: pieces_text_def)
  ultimately show ?case by blast
qed

text \<open>
  C4. The claim says that the texts of all the pieces the lexer produces for a file,
  concatenated in order, are the file's text. The lexer's last piece is the end-of-file
  piece, and its text is the marker \<^verbatim>\<open>EOF-EOF-EOF\<close>: for the one-character file \<^verbatim>\<open>a\<close>
  the concatenation is \<^verbatim>\<open>aEOF-EOF-EOF\<close>.
\<close>

theorem C4_all_pieces_counterexample:
  "map_sum id pieces_text (tokenize ascii_only (one_file ''f'' ''a'') (Some ''f''))
     = Inr ''aEOF-EOF-EOF''
   \<and> map_sum id pieces_text (tokenize ascii_only (one_file ''f'' ''a'') (Some ''f''))
     \<noteq> Inr ''a''"
  by code_simp

text \<open>
  C4, amended. For every readable file, and whatever the word class outside ASCII, the
  lexer's pieces are the end-of-file piece (with the marker as its text), last, and before
  it pieces whose texts, concatenated in order, are the file's text exactly.
\<close>

theorem C4_lexer_text_roundtrip:
  assumes "fs fnm = Some txt"
  shows "\<exists>ps eof. tokenize uni fs fnm = Inr (ps @ [eof])
           \<and> pieces_text ps = txt
           \<and> kind eof = PIECE_EOF \<and> get_text eof = ''EOF-EOF-EOF''"
proof -
  from tokenize_lines_text[of uni fnm 1 "split_lines [] txt" False]
  obtain ps where
    p: "tokenize_lines uni fnm 1 (split_lines [] txt) False
          = ps @ [StrPiece PIECE_EOF (Position (1 + length (split_lines [] txt)) fnm (Some 0)) ''EOF-EOF-EOF'']"
    and t: "pieces_text ps = concat (split_lines [] txt)" by blast
  have "tokenize uni fs fnm
          = Inr (ps @ [StrPiece PIECE_EOF (Position (1 + length (split_lines [] txt)) fnm (Some 0)) ''EOF-EOF-EOF''])"
    using assms p by (simp add: tokenize_def line_stream_file_def)
  moreover have "pieces_text ps = txt" using t by (simp add: split_lines_text)
  ultimately show ?thesis by fastforce
qed

theorem C4_lexer_text_roundtrip_witness:
  "\<exists>ps eof. tokenize ascii_only (one_file ''f'' ''a(b)'') (Some ''f'') = Inr (ps @ [eof])
           \<and> pieces_text ps = ''a(b)''
           \<and> kind eof = PIECE_EOF \<and> get_text eof = ''EOF-EOF-EOF''"
proof -
  have "one_file ''f'' ''a(b)'' (Some ''f'') = Some ''a(b)''" by (simp add: one_file_def)
  from C4_lexer_text_roundtrip[of "one_file ''f'' ''a(b)''" "Some ''f''" "''a(b)''" ascii_only, OF this]
  show ?thesis .
qed

section \<open>Calls: glue, defined macros, and the depth limit\<close>

text \<open>
  What \<open>expand_stream\<close> does at an identifier that is not a bound parameter and whose
  arguments parse: for the name \<^verbatim>\<open>glue\<close> without an entry in the macro table, and for a
  name with an entry.
\<close>

lemma expand_stream_call:
  assumes "get g m = Inr (Some piece, g1, m1)"
    and "kind piece = PIECE_IDENTIFIER"
    and "pv (get_text piece) = None"
    and "find_arguments g1 m1 (pos piece) (m1 (Some (get_text piece))) = Inr (arguments, g2, m2)"
  shows "m1 (Some (get_text piece)) = None \<Longrightarrow> get_text piece = ''glue'' \<Longrightarrow>
           expand_stream g m pv en
             = yield [StrPiece PIECE_TEXT (pos piece) (glue_text arguments)]
                 (expand_stream g2 m2 pv en)"
    and "m1 (Some (get_text piece)) = Some d \<Longrightarrow>
           expand_stream g m pv en
             = (if length (parameters d) \<noteq> length arguments
                then raise (Fatal [def_pos d, Some (pos piece)]
                       (IncorrectNumberOfArgument (def_name d) (length (parameters d))
                          (length arguments)))
                else if length en \<ge> MAX_EXPAND_LEVEL then raise TypeError
                else
                  (case expand_arguments m2 pv (en @ [(piece, d)])
                          (zip (parameters d) arguments) Map.empty of
                     Inl e \<Rightarrow> raise e
                   | Inr arg_table \<Rightarrow>
                       (case expand_stream (ListGetter (content d)) m2 arg_table
                               (en @ [(piece, d)]) of
                          (body, Some e) \<Rightarrow> (body, Some e)
                        | (body, None) \<Rightarrow> yield body (expand_stream g2 m2 pv en))))"
  using assms
  by (subst expand_stream.simps; simp; fail)+

lemma yield_eq: "yield ps r = (ps @ fst r, snd r)"
  by (simp add: yield_def split: prod.splits)

lemma expand_stream_end:
  "get g m = Inr (None, g1, m1) \<Longrightarrow> expand_stream g m pv en = ([], None)"
  by (subst expand_stream.simps) simp

text \<open>Pieces for the examples: an identifier, and the punctuation, at a column of line 1.\<close>

definition ident :: "nat \<Rightarrow> string \<Rightarrow> piece" where
  "ident c t = StrPiece PIECE_IDENTIFIER (Position 1 None (Some c)) t"

definition popen :: "nat \<Rightarrow> piece" where
  "popen c = StrPiece PIECE_PAROPEN (Position 1 None (Some c)) ''(''"

definition pclose :: "nat \<Rightarrow> piece" where
  "pclose c = StrPiece PIECE_PARCLOSE (Position 1 None (Some c)) '')''"

definition comma :: "nat \<Rightarrow> piece" where
  "comma c = StrPiece PIECE_COMMA (Position 1 None (Some c)) '',''"

definition blank :: "nat \<Rightarrow> piece" where
  "blank c = StrPiece PIECE_SPACES (Position 1 None (Some c)) '' ''"

lemmas example_pieces = ident_def popen_def pclose_def comma_def blank_def

lemmas scan_simps =
  find_arguments_def find_open.simps collect_arguments.simps store_argument_def
  argument_loop.simps store_til_matching_close_def close_loop.simps strip_trailing_def
  is_blank_def

text \<open>
  Runs of the whole program, evaluated: the text written, and how the run ends. A run
  that reaches the end of its input ends in the \<^verbatim>\<open>RuntimeError\<close> of the recognizer, after
  the text has been written.
\<close>

lemma run_glue_of_calls:
  "run ascii_only (one_file ''f'' ''define N(x) x endmacro  glue(N(foo), N(bar))'') (Some ''f'')
     = (''  N(foo)N(bar)'', Some RuntimeError)"
  by code_simp

lemma run_glue_defined_binary:
  "run ascii_only (one_file ''f'' ''define glue(x, y) x-y endmacro glue(a, b)'') (Some ''f'')
     = ('' a-b'', Some RuntimeError)"
  by code_simp

lemma run_glue_defined_unary:
  "run ascii_only (one_file ''f'' ''define glue(x) <x> endmacro glue(1)'') (Some ''f'')
     = ('' <1>'', Some RuntimeError)"
  by code_simp

text \<open>
  C1. The claim gives \<^verbatim>\<open>foobar\<close> as the output for
  \<^verbatim>\<open>define N(x) x endmacro  glue(N(foo), N(bar))\<close>, and says that every glue call is replaced
  by the concatenated texts of its arguments. The arguments of glue are not expanded, and
  the blanks before the call are ordinary pieces: the text written is \<^verbatim>\<open>  N(foo)N(bar)\<close>.
  And a call of glue is not a concatenation when a macro of that name is defined: with
  \<^verbatim>\<open>define glue(x, y) x-y endmacro\<close> the call \<^verbatim>\<open>glue(a, b)\<close> gives \<^verbatim>\<open>a-b\<close>.
\<close>

theorem C1_glue_example_counterexample:
  "fst (run ascii_only (one_file ''f'' ''define N(x) x endmacro  glue(N(foo), N(bar))'')
          (Some ''f''))
     = ''  N(foo)N(bar)''
   \<and> fst (run ascii_only (one_file ''f'' ''define N(x) x endmacro  glue(N(foo), N(bar))'')
          (Some ''f''))
     \<noteq> ''foobar''
   \<and> fst (run ascii_only (one_file ''f'' ''define glue(x, y) x-y endmacro glue(a, b)'')
          (Some ''f''))
     = '' a-b''"
  by (simp add: run_glue_of_calls run_glue_defined_binary)

text \<open>
  C1, amended. For that input the text written is \<^verbatim>\<open>  N(foo)N(bar)\<close>. In general, at an
  identifier \<^verbatim>\<open>glue\<close> that is neither a bound parameter nor a defined macro, and whose
  arguments parse, the first piece the expander yields is one Text piece at the position
  of the identifier, whose text is the texts of all pieces of all arguments, as parsed and
  not expanded, in order and with nothing between them; after it the expander yields what
  it yields from behind the call on, and ends as that ends.
\<close>

theorem C1_glue_concatenates:
  assumes "get g m = Inr (Some piece, g1, m1)"
    and "kind piece = PIECE_IDENTIFIER" and "get_text piece = ''glue''"
    and "pv ''glue'' = None" and "m1 (Some ''glue'') = None"
    and "find_arguments g1 m1 (pos piece) None = Inr (arguments, g2, m2)"
  shows "expand_stream g m pv en
           = (StrPiece PIECE_TEXT (pos piece) (concat (map get_text (concat arguments)))
                # fst (expand_stream g2 m2 pv en),
              snd (expand_stream g2 m2 pv en))
         \<and> fst (run ascii_only (one_file ''f'' ''define N(x) x endmacro  glue(N(foo), N(bar))'')
                  (Some ''f''))
           = ''  N(foo)N(bar)''"
proof
  show "expand_stream g m pv en
          = (StrPiece PIECE_TEXT (pos piece) (concat (map get_text (concat arguments)))
               # fst (expand_stream g2 m2 pv en),
             snd (expand_stream g2 m2 pv en))"
    using expand_stream_call(1)[of g m piece g1 m1 pv arguments g2 m2 en] assms
    by (simp add: glue_text_def yield_eq)
  show "fst (run ascii_only (one_file ''f'' ''define N(x) x endmacro  glue(N(foo), N(bar))'')
               (Some ''f'')) = ''  N(foo)N(bar)''"
    by (simp add: run_glue_of_calls)
qed

theorem C1_glue_concatenates_witness:
  "expand_stream
      (ListGetter [ident 0 ''glue'', popen 4, ident 5 ''a'', comma 6, blank 7, ident 8 ''b'', pclose 9])
      Map.empty Map.empty []
     = ([StrPiece PIECE_TEXT (Position 1 None (Some 0)) ''ab''], None)
   \<and> fst (run ascii_only (one_file ''f'' ''define N(x) x endmacro  glue(N(foo), N(bar))'')
            (Some ''f''))
     = ''  N(foo)N(bar)''"
proof -
  let ?g = "ListGetter [ident 0 ''glue'', popen 4, ident 5 ''a'', comma 6, blank 7, ident 8 ''b'', pclose 9]"
  let ?g1 = "ListGetter [popen 4, ident 5 ''a'', comma 6, blank 7, ident 8 ''b'', pclose 9]"
  have h1: "get ?g Map.empty = Inr (Some (ident 0 ''glue''), ?g1, Map.empty)" by simp
  have h2: "kind (ident 0 ''glue'') = PIECE_IDENTIFIER" by (simp add: ident_def)
  have h3: "get_text (ident 0 ''glue'') = ''glue''" by (simp add: ident_def)
  have h4: "(Map.empty :: params) ''glue'' = None" by simp
  have h5: "(Map.empty :: macros) (Some ''glue'') = None" by simp
  have h6: "find_arguments ?g1 Map.empty (pos (ident 0 ''glue'')) None
              = Inr ([[ident 5 ''a''], [ident 8 ''b'']], ListGetter [], Map.empty)"
    by (simp add: scan_simps example_pieces)
  have rest: "expand_stream (ListGetter []) Map.empty Map.empty [] = ([], None)"
    by (rule expand_stream_end) simp
  from C1_glue_concatenates[OF h1 h2 h3 h4 h5 h6, of "[]"]
  show ?thesis by (simp add: example_pieces rest)
qed

text \<open>
  C2. The claim says that an identifier \<^verbatim>\<open>glue\<close> never resolves through the macro table,
  also when a macro of that name is defined. The expander looks the name up in the table
  first and glues only when the table has no entry: after
  \<^verbatim>\<open>define glue(x) <x> endmacro\<close> the call \<^verbatim>\<open>glue(1)\<close> writes \<^verbatim>\<open><1>\<close>, the expansion of the
  definition, and not \<^verbatim>\<open>1\<close>; the run then ends, as every run that reaches the end of its
  input, in the \<^verbatim>\<open>RuntimeError\<close> of the recognizer.
\<close>

theorem C2_defined_glue_counterexample:
  "run ascii_only (one_file ''f'' ''define glue(x) <x> endmacro glue(1)'') (Some ''f'')
     = ('' <1>'', Some RuntimeError)
   \<and> fst (run ascii_only (one_file ''f'' ''define glue(x) <x> endmacro glue(1)'') (Some ''f''))
     \<noteq> '' 1''"
  by (simp add: run_glue_defined_unary)

text \<open>
  C2, amended. For every expansion state and every identifier piece with text \<^verbatim>\<open>glue\<close>
  that is not bound as a parameter, and whose arguments parse: when the macro table has
  no entry for \<^verbatim>\<open>glue\<close>, the call is the literal concatenation of its arguments; when it
  has one, the call is expanded as a call of that definition (arity check, depth check,
  arguments expanded and bound, content expanded).
\<close>

theorem C2_glue_resolution:
  assumes "get g m = Inr (Some piece, g1, m1)"
    and "kind piece = PIECE_IDENTIFIER" and "get_text piece = ''glue''"
    and "pv ''glue'' = None"
    and "find_arguments g1 m1 (pos piece) (m1 (Some ''glue'')) = Inr (arguments, g2, m2)"
  shows "expand_stream g m pv en =
           (case m1 (Some ''glue'') of
              None \<Rightarrow>
                yield [StrPiece PIECE_TEXT (pos piece) (glue_text arguments)]
                  (expand_stream g2 m2 pv en)
            | Some d \<Rightarrow>
                (if length (parameters d) \<noteq> length arguments
                 then raise (Fatal [def_pos d, Some (pos piece)]
                        (IncorrectNumberOfArgument (def_name d) (length (parameters d))
                           (length arguments)))
                 else if length en \<ge> MAX_EXPAND_LEVEL then raise TypeError
                 else
                   (case expand_arguments m2 pv (en @ [(piece, d)])
                           (zip (parameters d) arguments) Map.empty of
                      Inl e \<Rightarrow> raise e
                    | Inr arg_table \<Rightarrow>
                        (case expand_stream (ListGetter (content d)) m2 arg_table
                                (en @ [(piece, d)]) of
                           (body, Some e) \<Rightarrow> (body, Some e)
                         | (body, None) \<Rightarrow> yield body (expand_stream g2 m2 pv en)))))"
proof (cases "m1 (Some ''glue'')")
  case None
  with expand_stream_call(1)[of g m piece g1 m1 pv arguments g2 m2 en] assms
  show ?thesis by simp
next
  case (Some d)
  with expand_stream_call(2)[of g m piece g1 m1 pv arguments g2 m2 d en] assms
  show ?thesis by simp
qed

text \<open>
  The witness has a definition of \<^verbatim>\<open>glue\<close> in the table: \<^verbatim>\<open>glue(1)\<close> is the content of
  that definition with the argument in the place of the parameter.
\<close>

definition text_piece :: "nat \<Rightarrow> string \<Rightarrow> piece" where
  "text_piece c t = StrPiece PIECE_TEXT (Position 1 None (Some c)) t"

definition macro_glue :: define_piece where
  "macro_glue = \<lparr>def_pos = Some (Position 1 None (Some 0)), def_name = Some ''glue'',
      parameters = [ident 12 ''x''],
      content = [text_piece 15 ''<'', ident 16 ''x'', text_piece 17 ''>''],
      def_storeds = []\<rparr>"

definition table_glue :: macros where
  "table_glue = [Some ''glue'' \<mapsto> macro_glue]"

theorem C2_glue_resolution_witness:
  "expand_stream (ListGetter [ident 0 ''glue'', popen 4, text_piece 5 ''1'', pclose 6])
      table_glue Map.empty []
     = ([text_piece 15 ''<'', text_piece 5 ''1'', text_piece 17 ''>''], None)"
proof -
  let ?g = "ListGetter [ident 0 ''glue'', popen 4, text_piece 5 ''1'', pclose 6]"
  let ?g1 = "ListGetter [popen 4, text_piece 5 ''1'', pclose 6]"
  have h1: "get ?g table_glue = Inr (Some (ident 0 ''glue''), ?g1, table_glue)" by simp
  have h2: "kind (ident 0 ''glue'') = PIECE_IDENTIFIER" by (simp add: ident_def)
  have h3: "get_text (ident 0 ''glue'') = ''glue''" by (simp add: ident_def)
  have h4: "(Map.empty :: params) ''glue'' = None" by simp
  have t: "table_glue (Some ''glue'') = Some macro_glue" by (simp add: table_glue_def)
  have h5: "find_arguments ?g1 table_glue (pos (ident 0 ''glue'')) (table_glue (Some ''glue''))
              = Inr ([[text_piece 5 ''1'']], ListGetter [], table_glue)"
    by (simp add: t scan_simps example_pieces text_piece_def)
  have p: "parameters macro_glue = [ident 12 ''x'']"
    and c: "content macro_glue = [text_piece 15 ''<'', ident 16 ''x'', text_piece 17 ''>'']"
    by (simp_all add: macro_glue_def)
  have a: "expand_stream (ListGetter [text_piece 5 ''1'']) table_glue Map.empty
             [(ident 0 ''glue'', macro_glue)] = ([text_piece 5 ''1''], None)"
    by code_simp
  have gx: "get_text (ident 12 ''x'') = ''x''" by (simp add: ident_def)
  have body: "expand_stream (ListGetter (content macro_glue)) table_glue
                [''x'' \<mapsto> [text_piece 5 ''1'']] [(ident 0 ''glue'', macro_glue)]
                = ([text_piece 15 ''<'', text_piece 5 ''1'', text_piece 17 ''>''], None)"
    unfolding c by code_simp
  have rest: "expand_stream (ListGetter []) table_glue Map.empty [] = ([], None)"
    by (rule expand_stream_end) simp
  from C2_glue_resolution[OF h1 h2 h3 h4 h5, of "[]"]
  show ?thesis
    by (simp add: t p a gx body rest yield_def MAX_EXPAND_LEVEL_def)
qed

text \<open>
  C3. The expander never goes on with more than \<^verbatim>\<open>MAX_EXPAND_LEVEL\<close> frames, but the report
  the claim describes is not produced: the call that should report passes
  \<^verbatim>\<open>ordered_pos=True\<close> to \<^verbatim>\<open>report_error\<close>, which has no such parameter, so the run ends in a
  \<^verbatim>\<open>TypeError\<close>. Here a macro \<^verbatim>\<open>M\<close> defined as \<^verbatim>\<open>M()\<close> is called once; the newline behind
  the definition has been written when the run ends.
\<close>

theorem C3_depth_report_raises_type_error:
  "run ascii_only (one_file ''f'' (''define M() M() endmacro'' @ [NL] @ ''M()'' @ [NL])) (Some ''f'')
     = ([NL], Some TypeError)"
  by code_simp

text \<open>
  C5. For a defined macro a call without an open parenthesis is the fatal report
  \<^verbatim>\<open>Missing open parentheses\<close> at the position of the call. For \<^verbatim>\<open>glue\<close> without a
  definition the message cannot be built, since it reads the name of a definition that is
  not there: the run ends in an \<^verbatim>\<open>AttributeError\<close> and nothing is reported.
\<close>

theorem C5_glue_without_parenthesis_raises:
  "run ascii_only (one_file ''f'' ''glue x'') (Some ''f'') = ([], Some AttributeError)
   \<and> run ascii_only (one_file ''f'' ''define F(x) x endmacro F 1'') (Some ''f'')
     = ('' '',
        Some (Fatal [Some (Position 1 (Some ''f'') (Some 23))]
                (MissingOpenParentheses (Some ''F''))))"
  by code_simp

section \<open>Frames and the arguments of a call\<close>

lemma first_error_append:
  "first_error (xs @ ys) = (case first_error xs of Some e \<Rightarrow> Some e | None \<Rightarrow> first_error ys)"
  by (induction xs rule: first_error.induct) simp_all

lemma expand_arguments_values:
  assumes "distinct (map (\<lambda>pr. get_text (fst pr)) pairs)"
    and "\<forall>pr \<in> set pairs. tab (get_text (fst pr)) = None"
  shows "expand_arguments m pv en pairs tab =
           (case first_error (map (\<lambda>pr. expand_stream (ListGetter (snd pr)) m pv en) pairs) of
              Some e \<Rightarrow> Inl e
            | None \<Rightarrow>
                Inr (tab ++ map_of (map (\<lambda>pr. (get_text (fst pr),
                                        fst (expand_stream (ListGetter (snd pr)) m pv en))) pairs)))"
  using assms
proof (induction pairs arbitrary: tab)
  case Nil
  show ?case by simp
next
  case (Cons pr pairs)
  obtain p v where pr: "pr = (p, v)" by (cases pr)
  obtain out err where r: "expand_stream (ListGetter v) m pv en = (out, err)"
    by (cases "expand_stream (ListGetter v) m pv en")
  have t: "tab (get_text p) = None" using Cons.prems(2) pr by simp
  show ?case
  proof (cases err)
    case (Some e)
    with pr r t show ?thesis by simp
  next
    case None
    let ?tab = "tab(get_text p \<mapsto> out)"
    have d: "distinct (map (\<lambda>pr. get_text (fst pr)) pairs)" using Cons.prems(1) by simp
    have n: "\<forall>pr \<in> set pairs. ?tab (get_text (fst pr)) = None"
      using Cons.prems pr by (force simp: image_iff)
    have nd: "get_text p \<notin> dom (map_of (map (\<lambda>pr. (get_text (fst pr),
                    fst (expand_stream (ListGetter (snd pr)) m pv en))) pairs))"
      using Cons.prems(1) pr by (auto simp: dom_map_of_conv_image_fst image_image)
    let ?M = "map_of (map (\<lambda>pr. (get_text (fst pr),
                    fst (expand_stream (ListGetter (snd pr)) m pv en))) pairs)"
    have eq: "?tab ++ ?M = tab ++ ?M(get_text p \<mapsto> out)"
      using map_add_upd_left[OF nd, of tab out] by (simp only: map_add_upd)
    have "expand_arguments m pv en (pr # pairs) tab = expand_arguments m pv en pairs ?tab"
      using pr r t None by simp
    also note Cons.IH[OF d n]
    finally show ?thesis
      using pr r None by (simp only: eq list.map first_error.simps map_of.simps fst_conv snd_conv)
  qed
qed

lemma expand_arguments_zip:
  assumes "length ps = length arguments" and "distinct (map get_text ps)"
  shows "expand_arguments m pv en (zip ps arguments) Map.empty =
           (case first_error (argument_values m pv en arguments) of
              Some e \<Rightarrow> Inl e
            | None \<Rightarrow> Inr (bind_parameters ps (argument_values m pv en arguments)))"
proof -
  have a: "map (\<lambda>pr. expand_stream (ListGetter (snd pr)) m pv en) (zip ps arguments)
             = argument_values m pv en arguments"
    using assms(1) by (induction ps arguments rule: list_induct2) (simp_all add: argument_values_def)
  have f: "map (\<lambda>pr. get_text (fst pr)) (zip ps arguments) = map get_text ps"
    using assms(1) by (induction ps arguments rule: list_induct2) simp_all
  have b: "map (\<lambda>pr. (get_text (fst pr), fst (expand_stream (ListGetter (snd pr)) m pv en)))
               (zip ps arguments)
             = zip (map get_text ps) (map fst (argument_values m pv en arguments))"
    using assms(1) by (induction ps arguments rule: list_induct2) (simp_all add: argument_values_def)
  have d: "distinct (map (\<lambda>pr. get_text (fst pr)) (zip ps arguments))"
    using assms(2) f by simp
  from expand_arguments_values[OF d, of Map.empty m pv en]
  show ?thesis by (simp add: a b bind_parameters_def cong: option.case_cong)
qed


lemma first_error_at:
  assumes "i < length rs" and "first_error (take i rs) = None" and "snd (rs ! i) = Some e"
  shows "first_error rs = Some e"
proof -
  have "rs = take i rs @ rs ! i # drop (Suc i) rs"
    using assms(1) by (simp add: id_take_nth_drop)
  then have "first_error rs = first_error (take i rs @ rs ! i # drop (Suc i) rs)" by simp
  also have "\<dots> = first_error (rs ! i # drop (Suc i) rs)"
    using assms(2) by (simp only: first_error_append option.case)
  also have "\<dots> = Some e"
    using assms(3) by (cases "rs ! i") simp
  finally show ?thesis .
qed

text \<open>
  C10. At a call of a defined macro whose arguments parse and whose number of arguments
  is right, the new frame is appended and the depth is checked first: with
  \<^verbatim>\<open>MAX_EXPAND_LEVEL\<close> frames already, the call ends in the error of the depth report and no
  argument is expanded. Otherwise every argument is expanded with the new frame in the
  frame list; the first argument whose expansion ends in an error ends the call with that
  error. When none does, the content is expanded, with the parameters bound to what the
  arguments yielded and with the same extended frame list, and only behind the content
  the expander goes on with the frame list as it was before the call. So a call inside an
  argument is one level deeper than the call it is an argument of, and counts against
  the limit there: when the enclosing call fills the last level, a call of a defined
  macro at the head of an argument ends the run, whatever the two macros are.
\<close>

theorem C10_frame_pushed_before_arguments:
  assumes "get g m = Inr (Some piece, g1, m1)"
    and "kind piece = PIECE_IDENTIFIER"
    and "pv (get_text piece) = None"
    and "m1 (Some (get_text piece)) = Some d"
    and "find_arguments g1 m1 (pos piece) (Some d) = Inr (arguments, g2, m2)"
    and "length (parameters d) = length arguments"
    and "distinct (map get_text (parameters d))"
  shows "expand_stream g m pv en =
           (if length en \<ge> MAX_EXPAND_LEVEL then ([], Some TypeError)
            else
              (case first_error (argument_values m2 pv (en @ [(piece, d)]) arguments) of
                 Some e \<Rightarrow> ([], Some e)
               | None \<Rightarrow>
                   (case expand_stream (ListGetter (content d)) m2
                           (bind_parameters (parameters d)
                              (argument_values m2 pv (en @ [(piece, d)]) arguments))
                           (en @ [(piece, d)]) of
                      (body, Some e) \<Rightarrow> (body, Some e)
                    | (body, None) \<Rightarrow>
                        (body @ fst (expand_stream g2 m2 pv en),
                         snd (expand_stream g2 m2 pv en)))))
         \<and> (\<forall>i q rest d' args' h2 m3.
               i < length arguments
               \<and> first_error (argument_values m2 pv (en @ [(piece, d)]) (take i arguments)) = None
               \<and> arguments ! i = q # rest
               \<and> kind q = PIECE_IDENTIFIER \<and> pv (get_text q) = None
               \<and> m2 (Some (get_text q)) = Some d'
               \<and> find_arguments (ListGetter rest) m2 (pos q) (Some d') = Inr (args', h2, m3)
               \<and> length (parameters d') = length args'
               \<and> length en + 1 = MAX_EXPAND_LEVEL
             \<longrightarrow> expand_stream g m pv en = ([], Some TypeError))"
proof -
  let ?en = "en @ [(piece, d)]"
  have main: "expand_stream g m pv en =
           (if length en \<ge> MAX_EXPAND_LEVEL then ([], Some TypeError)
            else
              (case first_error (argument_values m2 pv ?en arguments) of
                 Some e \<Rightarrow> ([], Some e)
               | None \<Rightarrow>
                   (case expand_stream (ListGetter (content d)) m2
                           (bind_parameters (parameters d) (argument_values m2 pv ?en arguments))
                           ?en of
                      (body, Some e) \<Rightarrow> (body, Some e)
                    | (body, None) \<Rightarrow>
                        (body @ fst (expand_stream g2 m2 pv en),
                         snd (expand_stream g2 m2 pv en)))))"
    using expand_stream_call(2)[of g m piece g1 m1 pv arguments g2 m2 d en] assms(1-6)
    by (simp add: expand_arguments_zip[OF assms(6,7)] raise_def yield_eq
        split: option.splits)
  have deep: "expand_stream g m pv en = ([], Some TypeError)"
    if i: "i < length arguments"
      and before: "first_error (argument_values m2 pv ?en (take i arguments)) = None"
      and hd: "arguments ! i = q # rest"
      and q: "kind q = PIECE_IDENTIFIER" "pv (get_text q) = None"
        "m2 (Some (get_text q)) = Some d'"
        "find_arguments (ListGetter rest) m2 (pos q) (Some d') = Inr (args', h2, m3)"
        "length (parameters d') = length args'"
      and lim: "length en + 1 = MAX_EXPAND_LEVEL"
    for i q rest d' args' h2 m3
  proof -
    have gq: "get (ListGetter (q # rest)) m2 = Inr (Some q, ListGetter rest, m2)" by simp
    have inner: "expand_stream (ListGetter (arguments ! i)) m2 pv ?en = ([], Some TypeError)"
      using expand_stream_call(2)[of "ListGetter (q # rest)" m2 q "ListGetter rest" m2 pv
          args' h2 m3 d' ?en] gq q lim
      by (simp add: hd raise_def)
    let ?rs = "argument_values m2 pv ?en arguments"
    have "first_error ?rs = Some TypeError"
    proof (rule first_error_at[of i])
      show "i < length ?rs" using i by (simp add: argument_values_def)
      show "first_error (take i ?rs) = None"
        using before by (simp add: argument_values_def take_map)
      show "snd (?rs ! i) = Some TypeError"
        using i inner by (simp add: argument_values_def)
    qed
    with main lim show ?thesis by simp
  qed
  from main deep show ?thesis by blast
qed


text \<open>
  The witness is the call \<^verbatim>\<open>F(G())\<close>, with \<^verbatim>\<open>F(x)\<close> defined as \<^verbatim>\<open>x\<close> and \<^verbatim>\<open>G()\<close> as
  \<^verbatim>\<open>body\<close>. Without frames it yields \<^verbatim>\<open>body\<close>. With nine frames already, the call of
  \<^verbatim>\<open>F\<close> pushes the tenth frame, and \<^verbatim>\<open>G()\<close> in its argument the eleventh, which is one too
  many, although the content of \<^verbatim>\<open>G\<close> calls nothing.
\<close>

definition macro_G :: define_piece where
  "macro_G = \<lparr>def_pos = Some (Position 1 None (Some 0)), def_name = Some ''G'',
      parameters = [], content = [ident 20 ''body''], def_storeds = []\<rparr>"

definition macro_F :: define_piece where
  "macro_F = \<lparr>def_pos = Some (Position 2 None (Some 0)), def_name = Some ''F'',
      parameters = [ident 9 ''x''], content = [ident 30 ''x''], def_storeds = []\<rparr>"

definition table_FG :: macros where
  "table_FG = [Some ''F'' \<mapsto> macro_F, Some ''G'' \<mapsto> macro_G]"

theorem C10_frame_pushed_before_arguments_witness:
  "expand_stream
      (ListGetter [ident 0 ''F'', popen 1, ident 2 ''G'', popen 3, pclose 4, pclose 5])
      table_FG Map.empty []
     = ([ident 20 ''body''], None)
   \<and> expand_stream
      (ListGetter [ident 0 ''F'', popen 1, ident 2 ''G'', popen 3, pclose 4, pclose 5])
      table_FG Map.empty (replicate 9 (ident 0 ''F'', macro_F))
     = ([], Some TypeError)"
proof -
  let ?g = "ListGetter [ident 0 ''F'', popen 1, ident 2 ''G'', popen 3, pclose 4, pclose 5]"
  let ?g1 = "ListGetter [popen 1, ident 2 ''G'', popen 3, pclose 4, pclose 5]"
  let ?en = "replicate 9 (ident 0 ''F'', macro_F)"
  let ?args = "[[ident 2 ''G'', popen 3, pclose 4]]"
  have h1: "get ?g table_FG = Inr (Some (ident 0 ''F''), ?g1, table_FG)" by simp
  have h2: "kind (ident 0 ''F'') = PIECE_IDENTIFIER" by (simp add: ident_def)
  have h3: "(Map.empty :: params) (get_text (ident 0 ''F'')) = None" by simp
  have h4: "table_FG (Some (get_text (ident 0 ''F''))) = Some macro_F"
    by (simp add: table_FG_def ident_def)
  have h5: "find_arguments ?g1 table_FG (pos (ident 0 ''F'')) (Some macro_F)
              = Inr (?args, ListGetter [], table_FG)"
    by (simp add: scan_simps example_pieces)
  have h6: "length (parameters macro_F) = length ?args"
    by (simp add: macro_F_def)
  have h7: "distinct (map get_text (parameters macro_F))"
    by (simp add: macro_F_def)
  note inst = C10_frame_pushed_before_arguments[OF h1 h2 h3 h4 h5 h6 h7]
  have vals: "argument_values table_FG Map.empty [(ident 0 ''F'', macro_F)] ?args
                = [([ident 20 ''body''], None)]"
    by code_simp
  have body: "expand_stream (ListGetter (content macro_F)) table_FG
                (bind_parameters (parameters macro_F) [([ident 20 ''body''], None)])
                [(ident 0 ''F'', macro_F)]
                = ([ident 20 ''body''], None)"
    by code_simp
  have rest: "expand_stream (ListGetter []) table_FG Map.empty [] = ([], None)"
    by (rule expand_stream_end) simp
  have a: "expand_stream ?g table_FG Map.empty [] = ([ident 20 ''body''], None)"
    using inst[of "[]"] by (simp add: MAX_EXPAND_LEVEL_def vals body rest)
  have q: "kind (ident 2 ''G'') = PIECE_IDENTIFIER"
    "(Map.empty :: params) (get_text (ident 2 ''G'')) = None"
    "table_FG (Some (get_text (ident 2 ''G''))) = Some macro_G"
    by (simp_all add: ident_def table_FG_def)
  have fa: "find_arguments (ListGetter [popen 3, pclose 4]) table_FG (pos (ident 2 ''G''))
              (Some macro_G) = Inr ([], ListGetter [], table_FG)"
    by (simp add: scan_simps example_pieces)
  have pre: "0 < length ?args
      \<and> first_error (argument_values table_FG Map.empty (?en @ [(ident 0 ''F'', macro_F)])
           (take 0 ?args)) = None
      \<and> ?args ! 0 = ident 2 ''G'' # [popen 3, pclose 4]
      \<and> length (parameters macro_G) = length ([] :: piece list list)
      \<and> length ?en + 1 = MAX_EXPAND_LEVEL"
    by (simp add: argument_values_def macro_G_def MAX_EXPAND_LEVEL_def)
  have b: "expand_stream ?g table_FG Map.empty ?en = ([], Some TypeError)"
    using inst[of ?en] pre q fa by blast
  from a b show ?thesis by (rule conjI)
qed

section \<open>Argument lists\<close>

lemma find_open_skips:
  "hands_out g m (sp @ [po]) g' m' \<Longrightarrow> list_all (\<lambda>p. kind p = PIECE_SPACES) sp \<Longrightarrow>
     kind po = PIECE_PAROPEN \<Longrightarrow> find_open g m cp md = Inr (g', m')"
proof (induction sp arbitrary: g m)
  case Nil
  then show ?case
    by (subst find_open.simps) (auto simp: hands_out_Cons)
next
  case (Cons s sp)
  from Cons.prems(1) obtain g1 m1 where
    g: "get g m = Inr (Some s, g1, m1)" and h: "hands_out g1 m1 (sp @ [po]) g' m'"
    by (auto simp: hands_out_Cons)
  from Cons.IH[OF h] Cons.prems have "find_open g1 m1 cp md = Inr (g', m')" by simp
  with g Cons.prems(2) show ?case
    by (subst find_open.simps) simp
qed

lemma argument_loop_blanks:
  "hands_out g m (ws @ [pc]) g' m' \<Longrightarrow> list_all is_blank ws \<Longrightarrow>
     kind pc = PIECE_PARCLOSE \<Longrightarrow>
     argument_loop g m None True [] = Inr (Inr (([], False), pc), g', m')"
proof (induction ws arbitrary: g m)
  case Nil
  then show ?case
    by (subst argument_loop.simps) (auto simp: hands_out_Cons strip_trailing_def)
next
  case (Cons w ws)
  from Cons.prems(1) obtain g1 m1 where
    g: "get g m = Inr (Some w, g1, m1)" and h: "hands_out g1 m1 (ws @ [pc]) g' m'"
    by (auto simp: hands_out_Cons)
  from Cons.IH[OF h] Cons.prems
  have "argument_loop g1 m1 None True [] = Inr (Inr (([], False), pc), g', m')" by simp
  with g Cons.prems(2) show ?case
    by (subst argument_loop.simps) (auto simp: is_blank_def)
qed

lemma collect_arguments_prefix:
  "collect_arguments g m cp md arguments = Inr (res, g', m') \<Longrightarrow> \<exists>more. res = arguments @ more"
proof (induction g m cp md arguments rule: collect_arguments.induct)
  case (1 g m cp md arguments)
  from "1.prems" obtain argpieces stripped piece g1 m1 where
    sa: "store_argument g m = Inr (Inr ((argpieces, stripped), piece), g1, m1)"
    by (subst (asm) collect_arguments.simps) (auto split: sum.splits)
  show ?case
  proof (cases "kind piece = PIECE_PARCLOSE")
    case True
    with "1.prems" sa show ?thesis
      by (subst (asm) collect_arguments.simps) (auto split: if_splits)
  next
    case False
    with "1.prems" sa have c: "kind piece = PIECE_COMMA"
      and r: "collect_arguments g1 m1 cp md (arguments @ [argpieces]) = Inr (res, g', m')"
      by (subst (asm) collect_arguments.simps; auto split: if_splits)+
    from c have "\<not> kind piece \<noteq> PIECE_COMMA" by simp
    from "1.IH"[OF sa refl refl refl refl refl False this r] show ?thesis by auto
  qed
qed

lemma collect_arguments_empty_iff:
  assumes "collect_arguments g m cp md arguments = Inr (res, g2, m2)"
  shows "res = [] \<longleftrightarrow>
           arguments = []
           \<and> (\<exists>piece. store_argument g m = Inr (Inr (([], False), piece), g2, m2)
                 \<and> kind piece = PIECE_PARCLOSE)"
proof -
  from assms obtain argpieces stripped piece g1 m1 where
    sa: "store_argument g m = Inr (Inr ((argpieces, stripped), piece), g1, m1)"
    by (subst (asm) collect_arguments.simps) (auto split: sum.splits)
  show ?thesis
  proof (cases "kind piece = PIECE_PARCLOSE")
    case True
    with assms sa show ?thesis
      by (subst (asm) collect_arguments.simps) (auto split: if_splits)
  next
    case False
    with assms sa
    have r: "collect_arguments g1 m1 cp md (arguments @ [argpieces]) = Inr (res, g2, m2)"
      by (subst (asm) collect_arguments.simps) (auto split: if_splits)
    from collect_arguments_prefix[OF r] have "res \<noteq> []" by auto
    with sa False show ?thesis by auto
  qed
qed

lemma find_open_handed:
  "find_open g m cp md = Inr (g', m') \<Longrightarrow>
     \<exists>sp po. hands_out g m (sp @ [po]) g' m' \<and> list_all (\<lambda>p. kind p = PIECE_SPACES) sp
       \<and> kind po = PIECE_PAROPEN"
proof (induction g m cp md rule: find_open.induct)
  case (1 g m cp md)
  from "1.prems" obtain piece g1 m1 where g: "get g m = Inr (Some piece, g1, m1)"
    by (subst (asm) find_open.simps) (auto split: sum.splits option.splits)
  show ?case
  proof (cases "kind piece = PIECE_SPACES")
    case True
    with "1.prems" g have r: "find_open g1 m1 cp md = Inr (g', m')"
      by (subst (asm) find_open.simps) simp
    from "1.IH"[OF g refl refl refl True r] obtain sp po where
      h: "hands_out g1 m1 (sp @ [po]) g' m'" "list_all (\<lambda>p. kind p = PIECE_SPACES) sp"
        "kind po = PIECE_PAROPEN" by blast
    have "hands_out g m ((piece # sp) @ [po]) g' m'"
      using g h(1) by (auto simp: hands_out_Cons)
    with h True show ?thesis
      by (intro exI[of _ "piece # sp"] exI[of _ po]) simp
  next
    case False
    with "1.prems" g have "kind piece = PIECE_PAROPEN" and "g' = g1" and "m' = m1"
      by (subst (asm) find_open.simps; simp split: if_splits)+
    with g show ?thesis
      by (intro exI[of _ "[]"] exI[of _ piece]) (simp add: hands_out_Cons)
  qed
qed

lemma close_loop_extends:
  "close_loop g m pieces level = Inr (r, pieces', g', m') \<Longrightarrow> \<exists>more. pieces' = pieces @ more"
proof (induction g m pieces level rule: close_loop.induct)
  case (1 g m pieces level)
  show ?case
  proof (cases "level > 0")
    case False
    with "1.prems" show ?thesis by (simp add: close_loop.simps)
  next
    case True
    show ?thesis
    proof (cases "get g m")
      case (Inl e)
      with True "1.prems" show ?thesis by (simp add: close_loop.simps)
    next
      case (Inr t)
      obtain r1 g1 m1 where t: "t = (r1, g1, m1)" by (cases t)
      show ?thesis
      proof (cases r1)
        case None
        with True Inr t "1.prems" show ?thesis by (simp add: close_loop.simps)
      next
        case (Some piece)
        show ?thesis
        proof (cases "kind piece = PIECE_EOF")
          case True
          with \<open>level > 0\<close> Inr t Some "1.prems" show ?thesis
            by (simp add: close_loop.simps)
        next
          case False
          define lvl where "lvl = (if kind piece = PIECE_PAROPEN then level + 1
                      else if kind piece = PIECE_PARCLOSE then level - 1 else level)"
          have r: "close_loop g1 m1 (pieces @ [piece]) lvl = Inr (r, pieces', g', m')"
            using "1.prems" \<open>level > 0\<close> Inr t Some False unfolding lvl_def
            by (subst (asm) close_loop.simps) simp
          from "1.IH"[OF \<open>level > 0\<close> Inr[unfolded t Some] refl refl refl False r[unfolded lvl_def]]
          show ?thesis by auto
        qed
      qed
    qed
  qed
qed

lemma strip_trailing_head:
  "arg \<noteq> [] \<Longrightarrow> \<not> is_blank (hd arg) \<Longrightarrow>
     strip_trailing arg \<noteq> [] \<and> hd (strip_trailing arg) = hd arg"
  by (cases arg) (simp_all add: strip_trailing_def dropWhile_append)

lemma argument_loop_started:
  "argument_loop g m fc sl arg = Inr (Inr ((res, stripped), pc), g', m') \<Longrightarrow>
     arg \<noteq> [] \<Longrightarrow> \<not> is_blank (hd arg) \<Longrightarrow> res \<noteq> [] \<or> stripped"
proof (induction g m fc sl arg rule: argument_loop.induct)
  case (1 g m fc sl arg)
  from "1.prems"(1) obtain piece g1 m1 where g: "get g m = Inr (Some piece, g1, m1)"
    and ne: "kind piece \<noteq> PIECE_EOF"
    by (subst (asm) argument_loop.simps) (auto split: sum.splits option.splits if_splits)
  show ?case
  proof (cases "kind piece = PIECE_COMMA \<or> kind piece = PIECE_PARCLOSE")
    case True
    from strip_trailing_head[OF "1.prems"(2,3)] obtain a as where
      s: "strip_trailing arg = a # as" by (cases "strip_trailing arg") auto
    from "1.prems"(1) g ne True s show ?thesis
      by (subst (asm) argument_loop.simps)
         (auto simp: Let_def split: option.splits if_splits)
  next
    case False
    define stored where "stored = (\<not> sl \<or> \<not> is_blank piece)"
    define argument1 where "argument1 = (if stored then arg @ [piece] else arg)"
    define strip1 where "strip1 = (if stored then False else sl)"
    have a1: "argument1 \<noteq> []" "\<not> is_blank (hd argument1)"
      using "1.prems"(2,3) by (auto simp: argument1_def)
    show ?thesis
    proof (cases "kind piece = PIECE_PAROPEN")
      case True
      from "1.prems"(1) g ne False True obtain argument2 g2 m2 where
        c: "store_til_matching_close g1 m1 argument1 = Inr (None, argument2, g2, m2)"
        and r: "argument_loop g2 m2
                  (if fc = None then Some (length argument2 - 1) else fc) strip1 argument2
                = Inr (Inr ((res, stripped), pc), g', m')"
        by (subst (asm) argument_loop.simps)
           (auto simp: Let_def stored_def argument1_def strip1_def
                 split: sum.splits option.splits if_splits)
      from close_loop_extends[OF c[unfolded store_til_matching_close_def]] a1
      have a2: "argument2 \<noteq> []" "\<not> is_blank (hd argument2)" by auto
      from "1.IH"(1)[OF g refl refl refl ne False stored_def argument1_def strip1_def True c refl refl refl refl r a2]
      show ?thesis .
    next
      case po: False
      from "1.prems"(1) g ne False po
      have r: "argument_loop g1 m1 fc strip1 argument1 = Inr (Inr ((res, stripped), pc), g', m')"
        by (subst (asm) argument_loop.simps)
           (auto simp: Let_def stored_def argument1_def strip1_def)
      from "1.IH"(2)[OF g refl refl refl ne False stored_def argument1_def strip1_def po r a1]
      show ?thesis .
    qed
  qed
qed

lemma argument_loop_only_blanks:
  "argument_loop g m fc sl arg = Inr (Inr (([], False), pc), g', m') \<Longrightarrow> sl \<Longrightarrow> arg = [] \<Longrightarrow>
     \<exists>ws. hands_out g m (ws @ [pc]) g' m' \<and> list_all is_blank ws"
proof (induction g m fc sl arg rule: argument_loop.induct)
  case (1 g m fc sl arg)
  from "1.prems"(1) obtain piece g1 m1 where g: "get g m = Inr (Some piece, g1, m1)"
    and ne: "kind piece \<noteq> PIECE_EOF"
    by (subst (asm) argument_loop.simps) (auto split: sum.splits option.splits if_splits)
  show ?case
  proof (cases "kind piece = PIECE_COMMA \<or> kind piece = PIECE_PARCLOSE")
    case True
    from "1.prems" g ne True have "pc = piece" and "g' = g1" and "m' = m1"
      by (subst (asm) argument_loop.simps;
          auto simp: Let_def strip_trailing_def split: option.splits if_splits)+
    with g show ?thesis
      by (intro exI[of _ "[]"]) (simp add: hands_out_Cons)
  next
    case False
    define stored where "stored = (\<not> sl \<or> \<not> is_blank piece)"
    define argument1 where "argument1 = (if stored then arg @ [piece] else arg)"
    define strip1 where "strip1 = (if stored then False else sl)"
    show ?thesis
    proof (cases "is_blank piece")
      case True
      then have po: "kind piece \<noteq> PIECE_PAROPEN" by (auto simp: is_blank_def)
      from True "1.prems"(2,3) have s: "\<not> stored" "argument1 = []" "strip1"
        by (simp_all add: stored_def argument1_def strip1_def)
      from "1.prems"(1) g ne False po
      have r: "argument_loop g1 m1 fc strip1 argument1 = Inr (Inr (([], False), pc), g', m')"
        by (subst (asm) argument_loop.simps)
           (auto simp: Let_def stored_def argument1_def strip1_def)
      from "1.IH"(2)[OF g refl refl refl ne False stored_def argument1_def strip1_def po r s(3,2)]
      obtain ws where h: "hands_out g1 m1 (ws @ [pc]) g' m'" "list_all is_blank ws" by blast
      have "hands_out g m ((piece # ws) @ [pc]) g' m'"
        using g h(1) by (auto simp: hands_out_Cons)
      with h(2) True show ?thesis
        by (intro exI[of _ "piece # ws"]) simp
    next
      case nb: False
      then have a1: "argument1 \<noteq> []" "\<not> is_blank (hd argument1)"
        using "1.prems"(3) by (auto simp: argument1_def stored_def)
      show ?thesis
      proof (cases "kind piece = PIECE_PAROPEN")
        case True
        from "1.prems"(1) g ne False True obtain argument2 g2 m2 where
          c: "store_til_matching_close g1 m1 argument1 = Inr (None, argument2, g2, m2)"
          and r: "argument_loop g2 m2
                    (if fc = None then Some (length argument2 - 1) else fc) strip1 argument2
                  = Inr (Inr (([], False), pc), g', m')"
          by (subst (asm) argument_loop.simps)
             (auto simp: Let_def stored_def argument1_def strip1_def
                   split: sum.splits option.splits if_splits)
        from close_loop_extends[OF c[unfolded store_til_matching_close_def]] a1
        have a2: "argument2 \<noteq> []" "\<not> is_blank (hd argument2)" by auto
        from argument_loop_started[OF r a2] show ?thesis by simp
      next
        case po: False
        from "1.prems"(1) g ne False po
        have r: "argument_loop g1 m1 fc strip1 argument1 = Inr (Inr (([], False), pc), g', m')"
          by (subst (asm) argument_loop.simps)
             (auto simp: Let_def stored_def argument1_def strip1_def)
        from argument_loop_started[OF r a1] show ?thesis by simp
      qed
    qed
  qed
qed

lemma find_arguments_empty_iff:
  "find_arguments g m cp md = Inr ([], g', m') \<longleftrightarrow>
     (\<exists>sp po ws pc. hands_out g m (sp @ [po] @ ws @ [pc]) g' m'
        \<and> list_all (\<lambda>p. kind p = PIECE_SPACES) sp \<and> kind po = PIECE_PAROPEN
        \<and> list_all is_blank ws \<and> kind pc = PIECE_PARCLOSE)"
proof
  assume "find_arguments g m cp md = Inr ([], g', m')"
  then obtain g1 m1 where fo: "find_open g m cp md = Inr (g1, m1)"
    and ca: "collect_arguments g1 m1 cp md [] = Inr ([], g', m')"
    by (auto simp: find_arguments_def split: sum.splits)
  from find_open_handed[OF fo] obtain sp po where
    h1: "hands_out g m (sp @ [po]) g1 m1" "list_all (\<lambda>p. kind p = PIECE_SPACES) sp"
      "kind po = PIECE_PAROPEN" by blast
  from collect_arguments_empty_iff[OF ca] obtain pc where
    sa: "store_argument g1 m1 = Inr (Inr (([], False), pc), g', m')"
    and pc: "kind pc = PIECE_PARCLOSE" by auto
  from argument_loop_only_blanks[OF sa[unfolded store_argument_def]] obtain ws where
    h2: "hands_out g1 m1 (ws @ [pc]) g' m'" "list_all is_blank ws" by auto
  have "hands_out g m ((sp @ [po]) @ (ws @ [pc])) g' m'"
    using h1(1) h2(1) by (subst hands_out_append) blast
  then have "hands_out g m (sp @ [po] @ ws @ [pc]) g' m'" by simp
  with h1 h2 pc show "\<exists>sp po ws pc. hands_out g m (sp @ [po] @ ws @ [pc]) g' m'
        \<and> list_all (\<lambda>p. kind p = PIECE_SPACES) sp \<and> kind po = PIECE_PAROPEN
        \<and> list_all is_blank ws \<and> kind pc = PIECE_PARCLOSE" by blast
next
  assume "\<exists>sp po ws pc. hands_out g m (sp @ [po] @ ws @ [pc]) g' m'
        \<and> list_all (\<lambda>p. kind p = PIECE_SPACES) sp \<and> kind po = PIECE_PAROPEN
        \<and> list_all is_blank ws \<and> kind pc = PIECE_PARCLOSE"
  then obtain sp po ws pc where a: "hands_out g m (sp @ [po] @ ws @ [pc]) g' m'"
    "list_all (\<lambda>p. kind p = PIECE_SPACES) sp" "kind po = PIECE_PAROPEN"
    "list_all is_blank ws" "kind pc = PIECE_PARCLOSE" by blast
  from a(1) have "hands_out g m ((sp @ [po]) @ (ws @ [pc])) g' m'" by simp
  then obtain g1 m1 where h1: "hands_out g m (sp @ [po]) g1 m1"
    and h2: "hands_out g1 m1 (ws @ [pc]) g' m'"
    by (subst (asm) hands_out_append) blast
  from find_open_skips[OF h1 a(2,3)] have fo: "find_open g m cp md = Inr (g1, m1)" .
  from argument_loop_blanks[OF h2 a(4,5)]
  have "store_argument g1 m1 = Inr (Inr (([], False), pc), g', m')"
    by (simp add: store_argument_def)
  with a(5) have "collect_arguments g1 m1 cp md [] = Inr ([], g', m')"
    by (subst collect_arguments.simps) simp
  with fo show "find_arguments g m cp md = Inr ([], g', m')"
    by (simp add: find_arguments_def)
qed

text \<open>
  C9. \<open>find_arguments\<close> returns no argument, leaving the getter behind the closing
  parenthesis, exactly when the pieces it reads are blanks, an open parenthesis, blanks or
  newlines, and a closing parenthesis. In terms of the loop: whenever \<open>find_arguments\<close>
  returns, it returns no argument exactly when the first argument scanned behind the open
  parenthesis, when nothing has been collected yet, has no piece, was not unwrapped, and
  ends with the closing parenthesis.
\<close>

theorem C9_empty_call:
  "(find_arguments g m cp md = Inr ([], g', m') \<longleftrightarrow>
      (\<exists>sp po ws pc. hands_out g m (sp @ [po] @ ws @ [pc]) g' m'
         \<and> list_all (\<lambda>p. kind p = PIECE_SPACES) sp \<and> kind po = PIECE_PAROPEN
         \<and> list_all is_blank ws \<and> kind pc = PIECE_PARCLOSE))
   \<and> (find_arguments g m cp md = Inr (res, g2, m2)
    \<longrightarrow> (res = [] \<longleftrightarrow>
           (\<exists>g1 m1 piece. find_open g m cp md = Inr (g1, m1)
              \<and> store_argument g1 m1 = Inr (Inr (([], False), piece), g2, m2)
              \<and> kind piece = PIECE_PARCLOSE)))"
proof (intro conjI impI)
  show "find_arguments g m cp md = Inr ([], g', m') \<longleftrightarrow>
      (\<exists>sp po ws pc. hands_out g m (sp @ [po] @ ws @ [pc]) g' m'
         \<and> list_all (\<lambda>p. kind p = PIECE_SPACES) sp \<and> kind po = PIECE_PAROPEN
         \<and> list_all is_blank ws \<and> kind pc = PIECE_PARCLOSE)"
    by (rule find_arguments_empty_iff)
next
  assume "find_arguments g m cp md = Inr (res, g2, m2)"
  then obtain g1 m1 where fo: "find_open g m cp md = Inr (g1, m1)"
    and ca: "collect_arguments g1 m1 cp md [] = Inr (res, g2, m2)"
    by (auto simp: find_arguments_def split: sum.splits)
  from collect_arguments_empty_iff[OF ca] fo
  show "res = [] \<longleftrightarrow>
           (\<exists>g1 m1 piece. find_open g m cp md = Inr (g1, m1)
              \<and> store_argument g1 m1 = Inr (Inr (([], False), piece), g2, m2)
              \<and> kind piece = PIECE_PARCLOSE)"
    by auto
qed

text \<open>
  The witness is \<^verbatim>\<open> ( )\<close> followed by an identifier, for both parts; the call \<^verbatim>\<open>(())\<close>
  has one argument, without pieces, since that argument was unwrapped.
\<close>

theorem C9_empty_call_witness:
  "find_arguments (ListGetter [blank 4, popen 5, blank 6, pclose 7, ident 8 ''z''])
      Map.empty (Position 1 None (Some 0)) None
     = Inr ([], ListGetter [ident 8 ''z''], Map.empty)
   \<and> (\<exists>g1 m1 piece.
        find_open (ListGetter [blank 4, popen 5, blank 6, pclose 7, ident 8 ''z''])
            Map.empty (Position 1 None (Some 0)) None = Inr (g1, m1)
        \<and> store_argument g1 m1
            = Inr (Inr (([], False), piece), ListGetter [ident 8 ''z''], Map.empty)
        \<and> kind piece = PIECE_PARCLOSE)
   \<and> find_arguments (ListGetter [popen 5, popen 6, pclose 7, pclose 8])
        Map.empty (Position 1 None (Some 0)) None
     = Inr ([[]], ListGetter [], Map.empty)"
proof -
  let ?g = "ListGetter [blank 4, popen 5, blank 6, pclose 7, ident 8 ''z'']"
  have h: "\<exists>sp po ws pc. hands_out ?g Map.empty (sp @ [po] @ ws @ [pc])
               (ListGetter [ident 8 ''z'']) Map.empty
           \<and> list_all (\<lambda>p. kind p = PIECE_SPACES) sp \<and> kind po = PIECE_PAROPEN
           \<and> list_all is_blank ws \<and> kind pc = PIECE_PARCLOSE"
    by (intro exI[of _ "[blank 4]"] exI[of _ "popen 5"] exI[of _ "[blank 6]"]
          exI[of _ "pclose 7"])
       (simp add: hands_out_Cons example_pieces is_blank_def)
  note inst = C9_empty_call[of ?g Map.empty "Position 1 None (Some 0)" None
      "ListGetter [ident 8 ''z'']" Map.empty "[]" "ListGetter [ident 8 ''z'']" Map.empty]
  from inst h
  have a: "find_arguments ?g Map.empty (Position 1 None (Some 0)) None
             = Inr ([], ListGetter [ident 8 ''z''], Map.empty)"
    by blast
  from inst a
  have b: "\<exists>g1 m1 piece.
        find_open ?g Map.empty (Position 1 None (Some 0)) None = Inr (g1, m1)
        \<and> store_argument g1 m1
            = Inr (Inr (([], False), piece), ListGetter [ident 8 ''z''], Map.empty)
        \<and> kind piece = PIECE_PARCLOSE"
    by blast
  have c: "find_arguments (ListGetter [popen 5, popen 6, pclose 7, pclose 8])
        Map.empty (Position 1 None (Some 0)) None
     = Inr ([[]], ListGetter [], Map.empty)"
    by (simp add: scan_simps example_pieces)
  from a b c show ?thesis by blast
qed

section \<open>Unwrapping the outer parentheses of an argument\<close>

lemma opens_simps [simp]:
  "opens [] = 0"
  "opens (p # ps) = (if kind p = PIECE_PAROPEN then Suc (opens ps) else opens ps)"
  "opens (xs @ ys) = opens xs + opens ys"
  by (simp_all add: opens_def)

lemma closes_simps [simp]:
  "closes [] = 0"
  "closes (p # ps) = (if kind p = PIECE_PARCLOSE then Suc (closes ps) else closes ps)"
  "closes (xs @ ys) = closes xs + closes ys"
  by (simp_all add: closes_def)

lemma close_loop_group:
  assumes "hands_out g m q g' m'"
    and "list_all (\<lambda>p. kind p \<noteq> PIECE_EOF) q"
    and "\<forall>k<length q. closes (take k q) < level + opens (take k q)"
    and "closes q = level + opens q"
  shows "close_loop g m acc level = Inr (None, acc @ q, g', m')"
  using assms
proof (induction q arbitrary: g m acc level)
  case Nil
  then show ?case by (subst close_loop.simps) simp
next
  case (Cons p q)
  from Cons.prems(1) obtain g1 m1 where
    g: "get g m = Inr (Some p, g1, m1)" and h: "hands_out g1 m1 q g' m'"
    by (auto simp: hands_out_Cons)
  from Cons.prems(3)[rule_format, of 0] have l: "level > 0" by simp
  from Cons.prems(2) have ne: "kind p \<noteq> PIECE_EOF" and ne': "list_all (\<lambda>p. kind p \<noteq> PIECE_EOF) q"
    by simp_all
  define level' where "level' = (if kind p = PIECE_PAROPEN then level + 1
                      else if kind p = PIECE_PARCLOSE then level - 1 else level)"
  have c: "closes q = level' + opens q"
    using Cons.prems(4) l by (auto simp: level'_def split: if_splits)
  have b: "\<forall>k<length q. closes (take k q) < level' + opens (take k q)"
  proof (intro allI impI)
    fix k assume "k < length q"
    then have "Suc k < length (p # q)" by simp
    from Cons.prems(3)[rule_format, OF this] l
    show "closes (take k q) < level' + opens (take k q)"
      by (auto simp: level'_def split: if_splits)
  qed
  from Cons.IH[OF h ne' b c, of "acc @ [p]"]
  have "close_loop g1 m1 (acc @ [p]) level' = Inr (None, acc @ p # q, g', m')" by simp
  with g l ne show ?case
    by (subst close_loop.simps) (simp add: level'_def)
qed


lemma wf_nth:
  "well_formed_argument raw \<Longrightarrow> i < length raw \<Longrightarrow>
     kind (raw ! i) = PIECE_COMMA \<or> kind (raw ! i) = PIECE_PARCLOSE \<Longrightarrow>
     closes (take i raw) < opens (take i raw)"
  by (auto simp: well_formed_argument_def list_all_iff)

lemma wf_no_eof: "well_formed_argument raw \<Longrightarrow> list_all (\<lambda>p. kind p \<noteq> PIECE_EOF) raw"
  by (simp add: well_formed_argument_def)

lemma wf_total: "well_formed_argument raw \<Longrightarrow> closes raw = opens raw"
  by (simp add: well_formed_argument_def)

lemma wf_prefix:
  "well_formed_argument raw \<Longrightarrow> n \<le> length raw \<Longrightarrow> closes (take n raw) \<le> opens (take n raw)"
proof (induction n)
  case 0
  show ?case by simp
next
  case (Suc n)
  then have n: "n < length raw" by simp
  have t: "take (Suc n) raw = take n raw @ [raw ! n]" using n by (simp add: take_Suc_conv_app_nth)
  show ?case
  proof (cases "kind (raw ! n) = PIECE_PARCLOSE")
    case True
    from wf_nth[OF Suc.prems(1) n] True show ?thesis by (simp add: t)
  next
    case False
    with Suc show ?thesis by (simp add: t)
  qed
qed

lemma wfI:
  assumes "list_all (\<lambda>p. kind p \<noteq> PIECE_EOF) raw" and "closes raw = opens raw"
    and "\<And>i. i < length raw \<Longrightarrow> kind (raw ! i) = PIECE_COMMA \<or> kind (raw ! i) = PIECE_PARCLOSE \<Longrightarrow>
           closes (take i raw) < opens (take i raw)"
  shows "well_formed_argument raw"
  using assms by (auto simp: well_formed_argument_def list_all_iff)

text \<open>A well-formed argument stays well formed without a first piece that is no parenthesis.\<close>

lemma wf_tail:
  assumes "well_formed_argument (p # raw)" and "kind p \<noteq> PIECE_PAROPEN"
  shows "well_formed_argument raw"
proof (rule wfI)
  show "list_all (\<lambda>p. kind p \<noteq> PIECE_EOF) raw" using wf_no_eof[OF assms(1)] by simp
  from wf_nth[OF assms(1), of 0] have nc: "kind p \<noteq> PIECE_PARCLOSE" by auto
  show "closes raw = opens raw" using wf_total[OF assms(1)] assms(2) nc by simp
  fix i assume "i < length raw" and "kind (raw ! i) = PIECE_COMMA \<or> kind (raw ! i) = PIECE_PARCLOSE"
  with wf_nth[OF assms(1), of "Suc i"] assms(2) nc
  show "closes (take i raw) < opens (take i raw)" by simp
qed

lemma wf_head:
  assumes "well_formed_argument (p # raw)"
  shows "kind p \<noteq> PIECE_EOF" "kind p \<noteq> PIECE_COMMA" "kind p \<noteq> PIECE_PARCLOSE"
  using wf_no_eof[OF assms] wf_nth[OF assms, of 0] by auto

definition group_length :: "piece list \<Rightarrow> nat" where
  "group_length rest = (LEAST n. closes (take n rest) = Suc (opens (take n rest)))"

lemma group_total:
  assumes wf: "well_formed_argument (p # rest)" and p: "kind p = PIECE_PAROPEN"
  shows "closes (take (length rest) rest) = Suc (opens (take (length rest) rest))"
  using wf_total[OF wf] p by simp

lemma group_eq:
  assumes wf: "well_formed_argument (p # rest)" and p: "kind p = PIECE_PAROPEN"
  shows "closes (take (group_length rest) rest) = Suc (opens (take (group_length rest) rest))"
  unfolding group_length_def
  by (rule LeastI[of "\<lambda>n. closes (take n rest) = Suc (opens (take n rest))" "length rest"])
     (rule group_total[OF assms])

lemma group_le:
  assumes wf: "well_formed_argument (p # rest)" and p: "kind p = PIECE_PAROPEN"
  shows "group_length rest \<le> length rest"
  unfolding group_length_def
  by (rule Least_le[of "\<lambda>n. closes (take n rest) = Suc (opens (take n rest))" "length rest"])
     (rule group_total[OF assms])

lemma group_pos:
  assumes wf: "well_formed_argument (p # rest)" and p: "kind p = PIECE_PAROPEN"
  shows "0 < group_length rest"
proof (rule ccontr)
  assume "\<not> 0 < group_length rest"
  then have "group_length rest = 0" by simp
  with group_eq[OF assms] show False by simp
qed

lemma group_before:
  assumes wf: "well_formed_argument (p # rest)" and p: "kind p = PIECE_PAROPEN"
    and k: "k < group_length rest"
  shows "closes (take k rest) < Suc (opens (take k rest))"
proof -
  have "\<not> closes (take k rest) = Suc (opens (take k rest))"
    using k unfolding group_length_def by (rule not_less_Least)
  moreover have "closes (take k rest) \<le> Suc (opens (take k rest))"
  proof -
    have "Suc k \<le> length (p # rest)" using k group_le[OF wf p] by simp
    from wf_prefix[OF wf this] p show ?thesis by simp
  qed
  ultimately show ?thesis by linarith
qed


lemma group_last:
  assumes wf: "well_formed_argument (p # rest)" and p: "kind p = PIECE_PAROPEN"
  shows "kind (rest ! (group_length rest - 1)) = PIECE_PARCLOSE"
proof (rule ccontr)
  assume a: "kind (rest ! (group_length rest - 1)) \<noteq> PIECE_PARCLOSE"
  obtain k where n: "group_length rest = Suc k"
    using group_pos[OF wf p] by (cases "group_length rest") auto
  have kl: "k < length rest" using group_le[OF wf p] n by simp
  have t: "take (Suc k) rest = take k rest @ [rest ! k]"
    using kl by (rule take_Suc_conv_app_nth)
  have "closes (take (Suc k) rest) = Suc (opens (take (Suc k) rest))"
    using group_eq[OF wf p] n by simp
  then have e: "closes (take k rest) = Suc (opens (take k rest @ [rest ! k]))"
    unfolding t using a n by simp
  have "closes (take k rest) < Suc (opens (take k rest))"
    using group_before[OF wf p, of k] n by simp
  with e show False by (simp split: if_splits)
qed

lemma group_rest:
  assumes wf: "well_formed_argument (p # rest)" and p: "kind p = PIECE_PAROPEN"
  shows "well_formed_argument (drop (group_length rest) rest)"
proof (rule wfI)
  let ?n = "group_length rest"
  note le = group_le[OF wf p] and eq = group_eq[OF wf p]
  show "list_all (\<lambda>p. kind p \<noteq> PIECE_EOF) (drop ?n rest)"
    using wf_no_eof[OF wf] by (auto simp: list_all_iff dest: in_set_dropD)
  have "closes (take ?n rest @ drop ?n rest) = Suc (opens (take ?n rest @ drop ?n rest))"
    using wf_total[OF wf] p by simp
  then have "closes (take ?n rest) + closes (drop ?n rest)
               = Suc (opens (take ?n rest) + opens (drop ?n rest))"
    by (simp only: closes_simps(3) opens_simps(3))
  with eq show "closes (drop ?n rest) = opens (drop ?n rest)" by linarith
  fix i assume i: "i < length (drop ?n rest)"
    and k: "kind (drop ?n rest ! i) = PIECE_COMMA \<or> kind (drop ?n rest ! i) = PIECE_PARCLOSE"
  have tk: "take (Suc (?n + i)) (p # rest) = p # (take ?n rest @ take i (drop ?n rest))"
    by (simp add: take_add)
  have nth: "(p # rest) ! Suc (?n + i) = drop ?n rest ! i" using le i by simp
  have "Suc (?n + i) < length (p # rest)" using i by simp
  from wf_nth[OF wf this] k
  have "closes (take (Suc (?n + i)) (p # rest)) < opens (take (Suc (?n + i)) (p # rest))"
    unfolding nth by simp
  then have "closes (p # (take ?n rest @ take i (drop ?n rest)))
               < opens (p # (take ?n rest @ take i (drop ?n rest)))"
    unfolding tk .
  with p eq show "closes (take i (drop ?n rest)) < opens (take i (drop ?n rest))" by simp
qed

lemma argument_loop_step_plain:
  assumes "get g m = Inr (Some p, g1, m1)"
    and "kind p \<noteq> PIECE_EOF" "kind p \<noteq> PIECE_COMMA" "kind p \<noteq> PIECE_PARCLOSE"
    and "kind p \<noteq> PIECE_PAROPEN"
  shows "argument_loop g m fc sl arg
           = argument_loop g1 m1 fc (sl \<and> is_blank p) (if sl \<and> is_blank p then arg else arg @ [p])"
  using assms by (subst argument_loop.simps) (auto simp: Let_def)

lemma argument_loop_step_open:
  assumes "get g m = Inr (Some p, g1, m1)"
    and "kind p = PIECE_PAROPEN"
    and "close_loop g1 m1 (arg @ [p]) 1 = Inr (None, arg2, g2, m2)"
  shows "argument_loop g m fc sl arg
           = argument_loop g2 m2 (if fc = None then Some (length arg2 - 1) else fc) False arg2"
  using assms
  by (subst argument_loop.simps) (simp add: Let_def is_blank_def store_til_matching_close_def)

lemma argument_loop_step_end:
  assumes "get g m = Inr (Some t, g', m')"
    and "kind t = PIECE_COMMA \<or> kind t = PIECE_PARCLOSE"
  shows "argument_loop g m fc sl arg =
           (case fc of
              None \<Rightarrow> Inr (Inr ((strip_trailing arg, False), t), g', m')
            | Some c \<Rightarrow>
                (case strip_trailing arg of
                   [] \<Rightarrow> Inl IndexError
                 | a # as \<Rightarrow>
                     (if kind a = PIECE_PAROPEN \<and> length (strip_trailing arg) - 1 = c
                      then Inr (Inr ((butlast (tl (strip_trailing arg)), True), t), g', m')
                      else Inr (Inr ((strip_trailing arg, False), t), g', m'))))"
  using assms by (subst argument_loop.simps) (auto simp: Let_def)

lemma strip_trailing_keep:
  "\<not> is_blank x \<Longrightarrow> strip_trailing (xs @ x # ys) = xs @ x # strip_trailing ys"
  by (simp add: strip_trailing_def dropWhile_append)

lemma strip_trailing_nth:
  assumes "c < length arg" and "\<not> is_blank (arg ! c)"
  shows "strip_trailing arg = take c arg @ arg ! c # strip_trailing (drop (Suc c) arg)"
proof -
  have "arg = take c arg @ arg ! c # drop (Suc c) arg"
    using assms(1) by (simp add: id_take_nth_drop)
  then have "strip_trailing arg = strip_trailing (take c arg @ arg ! c # drop (Suc c) arg)"
    by simp
  also have "\<dots> = take c arg @ arg ! c # strip_trailing (drop (Suc c) arg)"
    using assms(2) by (rule strip_trailing_keep)
  finally show ?thesis .
qed

definition finish :: "nat \<Rightarrow> piece list \<Rightarrow> piece list \<times> bool" where
  "finish c A = (if kind (hd A) = PIECE_PAROPEN \<and> length A - 1 = c
                 then (butlast (tl A), True) else (A, False))"

lemma argument_loop_after_group:
  assumes "hands_out g m (raw @ [t]) g' m'"
    and "well_formed_argument raw"
    and "kind t = PIECE_COMMA \<or> kind t = PIECE_PARCLOSE"
    and "c < length arg" and "\<not> is_blank (arg ! c)"
  shows "argument_loop g m (Some c) False arg
           = Inr (Inr (finish c (strip_trailing (arg @ raw)), t), g', m')"
  using assms
proof (induction "length raw" arbitrary: raw g m arg rule: less_induct)
  case less
  show ?case
  proof (cases raw)
    case Nil
    with less.prems(1) have g: "get g m = Inr (Some t, g', m')"
      by (simp add: hands_out_Cons)
    have "strip_trailing arg \<noteq> []"
      unfolding strip_trailing_nth[OF less.prems(4,5)] by simp
    then obtain a as where s: "strip_trailing arg = a # as"
      by (cases "strip_trailing arg") auto
    show ?thesis
      unfolding argument_loop_step_end[OF g less.prems(3)] Nil
      by (simp add: s finish_def)
  next
    case (Cons p rest)
    from less.prems(1) obtain g1 m1 where
      g: "get g m = Inr (Some p, g1, m1)" and h: "hands_out g1 m1 (rest @ [t]) g' m'"
      by (auto simp: Cons hands_out_Cons)
    note wf = less.prems(2)[unfolded Cons]
    note hd = wf_head[OF wf]
    have c': "c < length (arg @ xs)" "\<not> is_blank ((arg @ xs) ! c)" for xs
      using less.prems(4,5) by (simp_all add: nth_append)
    show ?thesis
    proof (cases "kind p = PIECE_PAROPEN")
      case False
      have "argument_loop g1 m1 (Some c) False (arg @ [p])
              = Inr (Inr (finish c (strip_trailing ((arg @ [p]) @ rest)), t), g', m')"
        by (rule less.hyps[OF _ h wf_tail[OF wf False] less.prems(3) c']) (simp add: Cons)
      then show ?thesis
        unfolding argument_loop_step_plain[OF g hd False] Cons by simp
    next
      case True
      let ?n = "group_length rest"
      have le: "?n \<le> length rest" by (rule group_le[OF wf True])
      have "rest @ [t] = take ?n rest @ (drop ?n rest @ [t])"
        by (simp only: append_assoc[symmetric] append_take_drop_id)
      with h have "hands_out g1 m1 (take ?n rest @ (drop ?n rest @ [t])) g' m'" by simp
      then obtain g2 m2 where h1: "hands_out g1 m1 (take ?n rest) g2 m2"
        and h2: "hands_out g2 m2 (drop ?n rest @ [t]) g' m'"
        unfolding hands_out_append by blast
      have ne: "list_all (\<lambda>p. kind p \<noteq> PIECE_EOF) (take ?n rest)"
        using wf_no_eof[OF wf] by (auto simp: list_all_iff dest: in_set_takeD)
      have b: "\<forall>k<length (take ?n rest). closes (take k (take ?n rest)) < 1 + opens (take k (take ?n rest))"
        using group_before[OF wf True] by (simp add: min_def)
      have e: "closes (take ?n rest) = 1 + opens (take ?n rest)"
        using group_eq[OF wf True] by simp
      have cl: "close_loop g1 m1 (arg @ [p]) 1 = Inr (None, (arg @ [p]) @ take ?n rest, g2, m2)"
        by (rule close_loop_group[OF h1 ne b e])
      have pos: "0 < ?n" by (rule group_pos[OF wf True])
      have "argument_loop g2 m2 (Some c) False ((arg @ [p]) @ take ?n rest)
              = Inr (Inr (finish c (strip_trailing (((arg @ [p]) @ take ?n rest) @ drop ?n rest)), t), g', m')"
        unfolding append_assoc[symmetric]
        by (rule less.hyps[OF _ h2 group_rest[OF wf True] less.prems(3)])
           (use pos le c'[of "[p] @ take ?n rest"] in \<open>simp_all add: Cons\<close>)
      then show ?thesis
        unfolding argument_loop_step_open[OF g True cl] Cons by simp
    qed
  qed
qed

lemma argument_loop_before_group:
  assumes "hands_out g m pre g1 m1"
    and "list_all (\<lambda>p. kind p \<noteq> PIECE_EOF \<and> kind p \<noteq> PIECE_COMMA
                       \<and> kind p \<noteq> PIECE_PARCLOSE \<and> kind p \<noteq> PIECE_PAROPEN) pre"
  shows "argument_loop g m None sl arg
           = argument_loop g1 m1 None (sl \<and> list_all is_blank pre)
               (arg @ (if sl then dropWhile is_blank pre else pre))"
  using assms
proof (induction pre arbitrary: g m sl arg)
  case Nil
  then show ?case by simp
next
  case (Cons p pre)
  from Cons.prems(1) obtain g2 m2 where
    g: "get g m = Inr (Some p, g2, m2)" and h: "hands_out g2 m2 pre g1 m1"
    by (auto simp: hands_out_Cons)
  from Cons.prems(2) have k: "kind p \<noteq> PIECE_EOF" "kind p \<noteq> PIECE_COMMA"
      "kind p \<noteq> PIECE_PARCLOSE" "kind p \<noteq> PIECE_PAROPEN"
    and r: "list_all (\<lambda>p. kind p \<noteq> PIECE_EOF \<and> kind p \<noteq> PIECE_COMMA
                       \<and> kind p \<noteq> PIECE_PARCLOSE \<and> kind p \<noteq> PIECE_PAROPEN) pre"
    by simp_all
  show ?case
    unfolding argument_loop_step_plain[OF g k] Cons.IH[OF h r]
    by simp
qed

lemma wf_pre:
  "well_formed_argument (pre @ suf) \<Longrightarrow> list_all (\<lambda>p. kind p \<noteq> PIECE_PAROPEN) pre \<Longrightarrow>
     well_formed_argument suf
     \<and> list_all (\<lambda>p. kind p \<noteq> PIECE_EOF \<and> kind p \<noteq> PIECE_COMMA
                      \<and> kind p \<noteq> PIECE_PARCLOSE \<and> kind p \<noteq> PIECE_PAROPEN) pre"
proof (induction pre)
  case Nil
  then show ?case by simp
next
  case (Cons p pre)
  from Cons.prems have wf: "well_formed_argument (p # (pre @ suf))"
    and np: "kind p \<noteq> PIECE_PAROPEN" and r: "list_all (\<lambda>p. kind p \<noteq> PIECE_PAROPEN) pre"
    by simp_all
  from Cons.IH[OF wf_tail[OF wf np] r] wf_head[OF wf] np show ?case by simp
qed

lemma find_first_index:
  assumes "P n" and "n < N" and "\<forall>i<n. \<not> P i"
  shows "find P [0..<N] = Some n"
proof -
  have "\<exists>i<length [0..<N]. P ([0..<N] ! i) \<and> n = [0..<N] ! i \<and> (\<forall>j<i. \<not> P ([0..<N] ! j))"
    using assms by (intro exI[of _ n]) auto
  then show ?thesis by (simp only: find_Some_iff)
qed

lemma matching_close_group:
  assumes wf: "well_formed_argument (p # rest)" and p: "kind p = PIECE_PAROPEN"
    and A: "A = p # take (group_length rest) rest @ S"
  shows "matching_close A = Some (group_length rest)"
  unfolding matching_close_def
proof (rule find_first_index)
  let ?n = "group_length rest"
  have le: "?n \<le> length rest" by (rule group_le[OF wf p])
  show "closes (take (Suc ?n) A) = opens (take (Suc ?n) A)"
    using group_eq[OF wf p] p le by (simp add: A)
  show "?n < length A" using le by (simp add: A)
  show "\<forall>i<?n. closes (take (Suc i) A) \<noteq> opens (take (Suc i) A)"
  proof (intro allI impI)
    fix i assume i: "i < ?n"
    have "take (Suc i) A = p # take i rest" using i le by (simp add: A min_def)
    with group_before[OF wf p i] p
    show "closes (take (Suc i) A) \<noteq> opens (take (Suc i) A)" by simp
  qed
qed

lemma hd_strip_drop_in_set:
  "strip_trailing (dropWhile is_blank raw) \<noteq> [] \<Longrightarrow>
     hd (strip_trailing (dropWhile is_blank raw)) \<in> set raw"
proof -
  assume a: "strip_trailing (dropWhile is_blank raw) \<noteq> []"
  have "set (strip_trailing (dropWhile is_blank raw)) \<subseteq> set (dropWhile is_blank raw)"
    unfolding strip_trailing_def using set_dropWhileD by fastforce
  moreover have "set (dropWhile is_blank raw) \<subseteq> set raw"
    using set_dropWhileD by fastforce
  ultimately show ?thesis using a hd_in_set by blast
qed

text \<open>
  C6. The claim's trigger is the position of the first closing parenthesis. The code
  records where the parenthesis that closes the first open one stands, and for
  \<^verbatim>\<open>((a))\<close> that is the last piece while the first closing parenthesis is not: the
  argument is unwrapped to \<^verbatim>\<open>(a)\<close>.
\<close>

theorem C6_first_close_counterexample:
  "store_argument
      (ListGetter [popen 0, popen 1, ident 2 ''a'', pclose 3, pclose 4, comma 5]) Map.empty
     = Inr (Inr (([popen 1, ident 2 ''a'', pclose 3], True), comma 5), ListGetter [], Map.empty)
   \<and> \<not> spec_unwrap_trigger [popen 0, popen 1, ident 2 ''a'', pclose 3, pclose 4]"
  by (simp add: scan_simps example_pieces spec_unwrap_trigger_def Position_def)

text \<open>
  C6, amended. For the pieces of an argument up to the comma or closing parenthesis that
  ends it, \<open>store_argument\<close> drops the whitespace and newline pieces before the first
  other piece and after the last one, and then removes the outermost parenthesis pair
  exactly when the first piece left is an open parenthesis and the closing parenthesis
  that matches it is the last piece left; what was between the pair (whitespace, commas,
  parentheses) is the argument, unchanged.
\<close>

theorem C6_outer_parentheses:
  assumes h: "hands_out g m (raw @ [t]) g' m'"
    and wf: "well_formed_argument raw"
    and t: "kind t = PIECE_COMMA \<or> kind t = PIECE_PARCLOSE"
  shows "store_argument g m
           = Inr (Inr (unwrap (strip_trailing (dropWhile is_blank raw)), t), g', m')"
proof -
  define pre where "pre = takeWhile (\<lambda>p. kind p \<noteq> PIECE_PAROPEN) raw"
  define suf where "suf = dropWhile (\<lambda>p. kind p \<noteq> PIECE_PAROPEN) raw"
  define kp where "kp = dropWhile is_blank pre"
  let ?A = "strip_trailing (dropWhile is_blank raw)"
  have raw: "raw = pre @ suf" by (simp add: pre_def suf_def)
  have np: "list_all (\<lambda>p. kind p \<noteq> PIECE_PAROPEN) pre"
    unfolding pre_def list_all_iff by (auto dest: set_takeWhileD)
  from wf_pre[OF wf[unfolded raw] np]
  have wfs: "well_formed_argument suf"
    and plain: "list_all (\<lambda>p. kind p \<noteq> PIECE_EOF \<and> kind p \<noteq> PIECE_COMMA
                      \<and> kind p \<noteq> PIECE_PARCLOSE \<and> kind p \<noteq> PIECE_PAROPEN) pre"
    by simp_all
  from h obtain g1 m1 where h1: "hands_out g m pre g1 m1"
    and h2: "hands_out g1 m1 (suf @ [t]) g' m'"
    unfolding raw append_assoc hands_out_append by blast
  have start: "store_argument g m = argument_loop g1 m1 None (list_all is_blank pre) kp"
    unfolding store_argument_def argument_loop_before_group[OF h1 plain]
    by (simp add: kp_def)
  show ?thesis
  proof (cases suf)
    case Nil
    with h2 have g: "get g1 m1 = Inr (Some t, g', m')" by (simp add: hands_out_Cons)
    have rp: "raw = pre" using raw Nil by simp
    have no: "\<not> outer_pair ?A"
    proof
      assume o: "outer_pair ?A"
      then have "?A \<noteq> []" and k: "kind (hd ?A) = PIECE_PAROPEN" by (simp_all add: outer_pair_def)
      from hd_strip_drop_in_set[OF this(1)] have "hd ?A \<in> set pre" using rp by simp
      with np k show False by (auto simp: list_all_iff)
    qed
    show ?thesis
      unfolding start argument_loop_step_end[OF g t]
      using no by (simp add: unwrap_def kp_def rp)
  next
    case (Cons p rest)
    have p: "kind p = PIECE_PAROPEN"
    proof -
      have "suf \<noteq> []" using Cons by simp
      then have "\<not> kind (hd suf) \<noteq> PIECE_PAROPEN"
        unfolding suf_def by (rule hd_dropWhile)
      with Cons show ?thesis by simp
    qed
    note wfp = wfs[unfolded Cons]
    let ?n = "group_length rest"
    let ?q = "take ?n rest"
    let ?r2 = "drop ?n rest"
    have le: "?n \<le> length rest" by (rule group_le[OF wfp p])
    have pos: "0 < ?n" by (rule group_pos[OF wfp p])
    from h2 obtain g2 m2 where g: "get g1 m1 = Inr (Some p, g2, m2)"
      and h3: "hands_out g2 m2 (rest @ [t]) g' m'"
      by (auto simp: Cons hands_out_Cons)
    have "rest @ [t] = ?q @ (?r2 @ [t])"
      by (simp only: append_assoc[symmetric] append_take_drop_id)
    with h3 have "hands_out g2 m2 (?q @ (?r2 @ [t])) g' m'" by simp
    then obtain g3 m3 where h4: "hands_out g2 m2 ?q g3 m3"
      and h5: "hands_out g3 m3 (?r2 @ [t]) g' m'"
      by (subst (asm) hands_out_append) blast
    have ne: "list_all (\<lambda>p. kind p \<noteq> PIECE_EOF) ?q"
      using wf_no_eof[OF wfp] by (auto simp: list_all_iff dest: in_set_takeD)
    have b: "\<forall>k<length ?q. closes (take k ?q) < 1 + opens (take k ?q)"
      using group_before[OF wfp p] by (simp add: min_def)
    have e: "closes ?q = 1 + opens ?q" using group_eq[OF wfp p] by simp
    define arg2 where "arg2 = (kp @ [p]) @ ?q"
    have cl: "close_loop g2 m2 (kp @ [p]) 1 = Inr (None, arg2, g3, m3)"
      unfolding arg2_def by (rule close_loop_group[OF h4 ne b e])
    define c where "c = length arg2 - 1"
    have len2: "length arg2 = Suc (length kp + ?n)" using le by (simp add: arg2_def)
    have c: "c = length kp + ?n" by (simp add: c_def len2)
    have cq: "arg2 ! c = rest ! (?n - 1)"
      using pos le by (simp add: arg2_def c nth_append)
    have cb: "\<not> is_blank (arg2 ! c)"
      using group_last[OF wfp p] by (simp add: cq is_blank_def)
    have cl2: "c < length arg2" by (simp add: c len2)
    have after: "argument_loop g3 m3 (Some c) False arg2
                   = Inr (Inr (finish c (strip_trailing (arg2 @ ?r2)), t), g', m')"
      by (rule argument_loop_after_group[OF h5 group_rest[OF wfp p] t cl2 cb])
    have loop: "store_argument g m
                  = Inr (Inr (finish c (strip_trailing (arg2 @ ?r2)), t), g', m')"
      unfolding start argument_loop_step_open[OF g p cl] using after by (simp add: c_def)
    have keep: "dropWhile is_blank raw = arg2 @ ?r2"
    proof -
      have nb: "\<not> is_blank p" using p by (simp add: is_blank_def)
      have "dropWhile is_blank (pre @ p # rest) = kp @ p # rest"
        using nb by (auto simp: dropWhile_append kp_def)
      then show ?thesis by (simp add: raw Cons arg2_def)
    qed
    have A: "?A = arg2 @ strip_trailing ?r2"
    proof -
      have "strip_trailing (arg2 @ ?r2)
              = take c (arg2 @ ?r2) @ (arg2 @ ?r2) ! c # strip_trailing (drop (Suc c) (arg2 @ ?r2))"
        by (rule strip_trailing_nth) (use cl2 cb in \<open>simp_all add: nth_append\<close>)
      also have "\<dots> = (take c arg2 @ [arg2 ! c]) @ strip_trailing ?r2"
        using cl2 by (simp add: nth_append c len2)
      also have "take c arg2 @ [arg2 ! c] = arg2"
        using cl2 by (simp add: take_Suc_conv_app_nth[symmetric] c len2)
      finally show ?thesis by (simp add: keep)
    qed
    have "finish c ?A = unwrap ?A"
    proof (cases kp)
      case (Cons x xs)
      have "x \<in> set pre" using Cons unfolding kp_def by (metis list.set_intros(1) set_dropWhileD)
      with np have "kind x \<noteq> PIECE_PAROPEN" by (auto simp: list_all_iff)
      moreover have "hd ?A = x" by (simp add: A arg2_def Cons)
      ultimately show ?thesis by (simp add: finish_def unwrap_def outer_pair_def)
    next
      case Nil
      have A': "?A = p # ?q @ strip_trailing ?r2" by (simp add: A arg2_def Nil)
      from matching_close_group[OF wfp p A']
      have "matching_close ?A = Some ?n" .
      moreover have "c = ?n" by (simp add: c Nil)
      moreover have "kind (hd ?A) = PIECE_PAROPEN" "?A \<noteq> []" using p by (simp_all add: A')
      ultimately show ?thesis by (auto simp: finish_def unwrap_def outer_pair_def)
    qed
    with loop show ?thesis by (simp add: keep)
  qed
qed

theorem C6_outer_parentheses_witness:
  "store_argument
      (ListGetter [blank 0, popen 1, blank 2, ident 3 ''a'', comma 4, ident 5 ''b'', blank 6,
                   pclose 7, blank 8, pclose 9]) Map.empty
     = Inr (Inr (([blank 2, ident 3 ''a'', comma 4, ident 5 ''b'', blank 6], True), pclose 9),
            ListGetter [], Map.empty)"
proof -
  let ?raw = "[blank 0, popen 1, blank 2, ident 3 ''a'', comma 4, ident 5 ''b'', blank 6,
               pclose 7, blank 8]"
  have h: "hands_out (ListGetter (?raw @ [pclose 9])) Map.empty (?raw @ [pclose 9])
             (ListGetter []) Map.empty"
    by (simp add: hands_out_Cons)
  have wf: "well_formed_argument ?raw"
    by (simp add: well_formed_argument_def example_pieces)
  have t: "kind (pclose 9) = PIECE_COMMA \<or> kind (pclose 9) = PIECE_PARCLOSE"
    by (simp add: pclose_def)
  have u: "unwrap (strip_trailing (dropWhile is_blank ?raw))
             = ([blank 2, ident 3 ''a'', comma 4, ident 5 ''b'', blank 6], True)"
    by code_simp
  from C6_outer_parentheses[OF h wf t] u show ?thesis by simp
qed

section \<open>What the lexer hands to the recognizer\<close>

lemma first_match_first:
  "m i = Some e \<Longrightarrow> first_match m (i # cands) = Some (i, e)"
  by simp

lemma re_search_at:
  "col < length line \<Longrightarrow> m col = Some e \<Longrightarrow> re_search m line col = Some (col, e)"
  by (simp add: re_search_def upt_conv_Cons)

lemma match_identifier_at:
  assumes "col < length line" and "ident_start (line ! col)" and "at_word_start uni line col"
  shows "\<exists>e. match_identifier uni line col = Some e"
proof -
  have w: "word_char uni (line ! col)"
    using assms(2) by (simp add: word_char_def ident_char_def)
  have "word_boundary uni line col"
    using assms w by (auto simp: word_boundary_def at_word_start_def)
  with assms show ?thesis by (simp add: match_identifier_def)
qed

lemma find_best_step:
  "find_best uni line col (a # es) best =
     (case entry_search uni line col a of
        None \<Rightarrow> find_best uni line col es best
      | Some (s, en) \<Rightarrow>
          (if (case best of None \<Rightarrow> True | Some (b, best_start, best_end) \<Rightarrow> best_start > s)
           then (if s = 0 then Some (a, s, en) else find_best uni line col es (Some (a, s, en)))
           else find_best uni line col es best))"
  by simp

lemma find_best_mono:
  "\<exists>b bs be. find_best uni line col es (Some (b0, s0, e0)) = Some (b, bs, be) \<and> bs \<le> s0"
proof (induction es arbitrary: b0 s0 e0)
  case Nil
  show ?case by (rule exI[of _ b0], rule exI[of _ s0], rule exI[of _ e0]) simp
next
  case (Cons a es)
  show ?case
  proof (cases "entry_search uni line col a")
    case None
    with Cons.IH[of b0 s0 e0] show ?thesis by (simp only: find_best_step option.case)
  next
    case (Some se)
    obtain s en where se: "se = (s, en)" by (cases se)
    show ?thesis
    proof (cases "s0 > s")
      case False
      with Cons.IH[of b0 s0 e0] Some se show ?thesis
        by (simp only: find_best_step option.case prod.case if_False)
    next
      case True
      show ?thesis
      proof (cases "s = 0")
        case z: True
        have "find_best uni line col (a # es) (Some (b0, s0, e0)) = Some (a, 0, en)"
          using Some se True unfolding z by (simp del: split_paired_Ex find_best.simps add: find_best_step)
        then show ?thesis by blast
      next
        case nz: False
        from Cons.IH[of a s en] obtain b bs be where
          r: "find_best uni line col es (Some (a, s, en)) = Some (b, bs, be)" and le: "bs \<le> s"
          by blast
        have "find_best uni line col (a # es) (Some (b0, s0, e0)) = Some (b, bs, be)"
          using Some se True nz r
          by (simp only: find_best_step option.case prod.case if_True if_False)
        moreover have "bs \<le> s0" using le True by simp
        ultimately show ?thesis by blast
      qed
    qed
  qed
qed

lemma find_best_covers:
  "e \<in> set es \<Longrightarrow> entry_search uni line col e = Some (s, en) \<Longrightarrow>
     \<exists>b bs be. find_best uni line col es best = Some (b, bs, be) \<and> bs \<le> s"
proof (induction es arbitrary: best)
  case Nil
  then show ?case by simp
next
  case (Cons a es)
  show ?case
  proof (cases "e = a")
    case True
    note sa = Cons.prems(2)[unfolded True]
    show ?thesis
    proof (cases "case best of None \<Rightarrow> True | Some (b, best_start, best_end) \<Rightarrow> best_start > s")
      case c: True
      show ?thesis
      proof (cases "s = 0")
        case z: True
        have "find_best uni line col (a # es) best = Some (a, 0, en)"
          using sa c unfolding z by (simp del: split_paired_Ex find_best.simps add: find_best_step)
        then show ?thesis by blast
      next
        case nz: False
        from find_best_mono[of uni line col es a s en] obtain b bs be where
          r: "find_best uni line col es (Some (a, s, en)) = Some (b, bs, be)" and le: "bs \<le> s"
          by blast
        have "find_best uni line col (a # es) best = Some (b, bs, be)"
          using sa c nz r by (simp only: find_best_step option.case prod.case if_True if_False)
        with le show ?thesis by blast
      qed
    next
      case c: False
      then obtain b0 s0 e0 where b: "best = Some (b0, s0, e0)" and le0: "s0 \<le> s"
        by (cases best) auto
      from find_best_mono[of uni line col es b0 s0 e0] obtain b' bs be where
        r: "find_best uni line col es best = Some (b', bs, be)" and le: "bs \<le> s0"
        unfolding b by blast
      have "find_best uni line col (a # es) best = Some (b', bs, be)"
        using sa c r by (simp only: find_best_step option.case prod.case if_False)
      moreover have "bs \<le> s" using le le0 by simp
      ultimately show ?thesis by blast
    qed
  next
    case False
    with Cons.prems have mem: "e \<in> set es" by simp
    show ?thesis
    proof (cases "entry_search uni line col a")
      case None
      with Cons.IH[OF mem Cons.prems(2), of best] show ?thesis
        by (simp only: find_best_step option.case)
    next
      case (Some se)
      obtain s' en' where se: "se = (s', en')" by (cases se)
      show ?thesis
      proof (cases "case best of None \<Rightarrow> True | Some (b, best_start, best_end) \<Rightarrow> best_start > s'")
        case c: False
        with Cons.IH[OF mem Cons.prems(2), of best] Some se show ?thesis
          by (simp only: find_best_step option.case prod.case if_False)
      next
        case c: True
        show ?thesis
        proof (cases "s' = 0")
          case z: True
          have "find_best uni line col (a # es) best = Some (a, 0, en')"
            using Some se c unfolding z by (simp del: split_paired_Ex find_best.simps add: find_best_step)
          then show ?thesis by blast
        next
          case nz: False
          with Cons.IH[OF mem Cons.prems(2), of "Some (a, s', en')"] Some se c show ?thesis
            by (simp only: find_best_step option.case prod.case if_True if_False)
        qed
      qed
    qed
  qed
qed

lemma identifier_entry: "(Some IDENTIFIER_PAT, None, PIECE_IDENTIFIER) \<in> set entries"
  by (simp add: entries_def)

text \<open>Where an identifier can start, the best match starts.\<close>

lemma find_best_at_word_start:
  assumes "col < length line" and "ident_start (line ! col)" and "at_word_start uni line col"
  shows "\<exists>ent be. find_best uni line col entries None = Some (ent, col, be)"
proof -
  from match_identifier_at[OF assms] obtain e where
    "match_identifier uni line col = Some e" by blast
  then have "entry_search uni line col (Some IDENTIFIER_PAT, None, PIECE_IDENTIFIER) = Some (col, e)"
    using assms(1) by (simp add: re_search_at)
  from find_best_covers[OF identifier_entry this, of None]
  obtain b bs be where r: "find_best uni line col entries None = Some (b, bs, be)"
    and "bs \<le> col"
    by blast
  moreover from find_best_entries[OF r] have "col \<le> bs" by simp
  ultimately have "find_best uni line col entries None = Some (b, col, be)" by simp
  then show ?thesis by blast
qed

lemma not_word_chars [simp]:
  "\<not> word_char uni NL" "\<not> word_char uni (CHR ''/'')" "\<not> word_char uni (CHR '' '')"
  "\<not> word_char uni TAB" "\<not> word_char uni DQUOTE" "\<not> word_char uni (CHR ''('')"
  "\<not> word_char uni (CHR '')'')" "\<not> word_char uni (CHR '','')"
  by (simp_all add: word_char_def ident_char_def ident_start_def NL_def TAB_def DQUOTE_def)

lemma not_ident_start_chars [simp]:
  "\<not> ident_start NL" "\<not> ident_start (CHR ''/'')" "\<not> ident_start (CHR '' '')"
  "\<not> ident_start TAB" "\<not> ident_start DQUOTE" "\<not> ident_start (CHR ''('')"
  "\<not> ident_start (CHR '')'')" "\<not> ident_start (CHR '','')"
  by (simp_all add: ident_start_def NL_def TAB_def DQUOTE_def)

lemma keyword_start: "keyword t \<Longrightarrow> t \<noteq> [] \<and> ident_start (hd t)"
  by (auto simp: keyword_def ident_start_def)

lemma at_word_start_after:
  "0 < col \<Longrightarrow> \<not> word_char uni (line ! (col - 1)) \<Longrightarrow> at_word_start uni line col"
  by (simp add: at_word_start_def)

lemma at_word_start_line_end: "at_word_start uni line (line_end line)"
proof (cases "ends_with_newline line")
  case True
  then have "line ! (length line - 1) = NL"
    by (auto simp: ends_with_newline_def last_conv_nth)
  with True show ?thesis by (simp add: at_word_start_def line_end_def)
next
  case False
  then show ?thesis by (simp add: at_word_start_def line_end_def)
qed

lemma at_word_start_block_end:
  assumes "find_end_of_block_comment_piece line start = (en, eoc)"
  shows "at_word_start uni line en"
proof (cases "str_find line ''*/'' start")
  case None
  with assms have "en = line_end line" by (simp add: find_end_of_block_comment_piece_def)
  then show ?thesis by (simp add: at_word_start_line_end)
next
  case (Some i)
  with assms have en: "en = i + 2" by (simp add: find_end_of_block_comment_piece_def)
  from str_find_nth[OF _ Some, of 1] have "line ! (i + 1) = CHR ''/''" by simp
  then show ?thesis unfolding en by (intro at_word_start_after) simp_all
qed

lemma takeWhile_last:
  assumes "0 < length (takeWhile P xs)"
  shows "P (xs ! (length (takeWhile P xs) - 1))"
proof -
  let ?n = "length (takeWhile P xs)"
  have "?n - 1 < ?n" using assms by simp
  then have "takeWhile P xs ! (?n - 1) = xs ! (?n - 1)" by (rule takeWhile_nth)
  moreover have "takeWhile P xs ! (?n - 1) \<in> set (takeWhile P xs)"
    using \<open>?n - 1 < ?n\<close> by (rule nth_mem)
  ultimately show ?thesis by (auto dest: set_takeWhileD)
qed

lemma match_spaces_chars:
  assumes "match_spaces line s = Some e"
  shows "space_char (line ! s)" and "space_char (line ! (e - 1))"
proof -
  from assms have s: "s < length line" "space_char (line ! s)"
    and e: "e = s + length (takeWhile space_char (drop s line))"
    by (auto simp: match_spaces_def split: if_splits)
  show "space_char (line ! s)" by fact
  from match_spaces_bounds[OF assms] have p: "0 < length (takeWhile space_char (drop s line))"
    using e by simp
  from takeWhile_last[OF p] have "space_char (drop s line ! (length (takeWhile space_char (drop s line)) - 1))" .
  moreover have "drop s line ! (length (takeWhile space_char (drop s line)) - 1) = line ! (e - 1)"
  proof -
    have "s + (length (takeWhile space_char (drop s line)) - 1) = e - 1" using p e by linarith
    moreover have "s + (length (takeWhile space_char (drop s line)) - 1) < length line"
      using p match_spaces_bounds[OF assms] e by linarith
    ultimately show ?thesis by (metis nth_drop less_imp_le_nat le_add1 le_trans)
  qed
  ultimately show "space_char (line ! (e - 1))" by simp
qed

lemma match_identifier_after:
  assumes "match_identifier uni line s = Some e" and "e < length line"
  shows "\<not> ident_char (line ! e)"
proof -
  from assms have e: "e = s + length (takeWhile ident_char (drop s line))"
    by (auto simp: match_identifier_def split: if_splits)
  have "length (takeWhile ident_char (drop s line)) < length (drop s line)"
    using assms(2) e by simp
  then have "\<not> ident_char (drop s line ! length (takeWhile ident_char (drop s line)))"
    by (rule nth_length_takeWhile)
  moreover have "drop s line ! length (takeWhile ident_char (drop s line)) = line ! e"
    using assms(2) e by simp
  ultimately show ?thesis by simp
qed

lemma string_body_last: "string_body cs = Some n \<Longrightarrow> cs ! (n - 1) = DQUOTE"
proof (induction cs arbitrary: n rule: string_body.induct)
  case 1
  then show ?case by simp
next
  case (2 c cs)
  show ?case
  proof (cases "c = DQUOTE")
    case True
    with "2.prems" show ?thesis by simp
  next
    case nq: False
    show ?thesis
    proof (cases "c = BACKSLASH")
      case True
      with "2.prems" nq obtain d ds k where cs: "cs = d # ds" and d: "d \<noteq> NL"
        and k: "string_body ds = Some k" and n: "n = k + 2"
        by (auto split: list.splits if_splits)
      from "2.IH"(1)[OF nq True cs d k] string_body_bounds[OF k] show ?thesis
        by (simp add: cs n)
    next
      case False
      with "2.prems" nq obtain k where k: "string_body cs = Some k" and n: "n = Suc k"
        by auto
      from "2.IH"(2)[OF nq False k] string_body_bounds[OF k] show ?thesis
        by (cases k) (simp_all add: n)
    qed
  qed
qed

lemma match_string_chars:
  assumes "match_string line s = Some e"
  shows "line ! s = DQUOTE" and "line ! (e - 1) = DQUOTE"
proof -
  from assms obtain n where s: "s < length line" "line ! s = DQUOTE"
    and b: "string_body (drop (s + 1) line) = Some n" and e: "e = s + 1 + n"
    by (auto simp: match_string_def split: if_splits)
  show "line ! s = DQUOTE" by fact
  from string_body_bounds[OF b] have n: "0 < n" "n \<le> length (drop (s + 1) line)" by auto
  from string_body_last[OF b] have "drop (s + 1) line ! (n - 1) = DQUOTE" .
  moreover have "drop (s + 1) line ! (n - 1) = line ! (e - 1)"
    using n e by simp
  ultimately show "line ! (e - 1) = DQUOTE" by simp
qed

lemma space_not_word: "space_char c \<Longrightarrow> \<not> word_char uni c \<and> \<not> ident_start c"
  by (auto simp: space_char_def)

lemma entries_cases:
  assumes mem: "(pat, lit, k) \<in> set entries"
  obtains
      (spaces) "pat = Some SPACES_PAT" "k = PIECE_SPACES"
    | (string) "pat = Some STRING_PAT" "k = PIECE_STRING"
    | (ident) "pat = Some IDENTIFIER_PAT" "k = PIECE_IDENTIFIER"
    | (comment) "lit = Some ''/*'' \<or> lit = Some ''//''" "k = PIECE_COMMENT"
    | (punct) c where "pat = None" "lit = Some [c]" "c = CHR ''('' \<or> c = CHR '')'' \<or> c = CHR '',''"
        "k \<noteq> PIECE_EOF"
  using mem unfolding entries_def by (simp only: set_simps insert_iff empty_iff prod.inject) blast


lemma entry_chars:
  assumes mem: "(pat, lit, k) \<in> set entries"
    and es: "entry_search uni line col (pat, lit, k) = Some (bs, be)"
  shows "k \<noteq> PIECE_EOF
         \<and> (k = PIECE_IDENTIFIER \<or> k = PIECE_COMMENT \<or> \<not> ident_start (line ! bs))
         \<and> (lit = Some ''/*'' \<or> lit = Some ''//'' \<or> at_word_start uni line be)"
proof -
  note b = entry_search_bounds[OF mem es]
  from b have pos: "0 < be" by simp
  from mem show ?thesis
  proof (cases rule: entries_cases)
    case spaces
    with es have "re_search (pattern_match uni SPACES_PAT line) line col = Some (bs, be)" by simp
    from re_search_Some[OF this] have "match_spaces line bs = Some be" by simp
    from match_spaces_chars[OF this] space_not_word
    have "\<not> ident_start (line ! bs)" and "\<not> word_char uni (line ! (be - 1))" by blast+
    with at_word_start_after[OF pos] spaces show ?thesis by simp
  next
    case string
    with es have "re_search (pattern_match uni STRING_PAT line) line col = Some (bs, be)" by simp
    from re_search_Some[OF this] have "match_string line bs = Some be" by simp
    from match_string_chars[OF this]
    have "\<not> ident_start (line ! bs)" and "\<not> word_char uni (line ! (be - 1))" by simp_all
    with at_word_start_after[OF pos] string show ?thesis by simp
  next
    case ident
    with es have "re_search (pattern_match uni IDENTIFIER_PAT line) line col = Some (bs, be)" by simp
    from re_search_Some[OF this] have m: "match_identifier uni line bs = Some be" by simp
    have "at_word_start uni line be"
    proof (cases "be < length line")
      case True
      from match_identifier_after[OF m True] ident_start_char[of "line ! be"]
      show ?thesis unfolding at_word_start_def by auto
    next
      case False
      then show ?thesis by (simp add: at_word_start_def)
    qed
    with ident show ?thesis by simp
  next
    case comment
    then show ?thesis by blast
  next
    case (punct c)
    with es have f: "str_find line [c] col = Some bs" and be: "be = bs + 1"
      by (auto split: option.splits)
    from str_find_nth[OF _ f, of 0] have l: "line ! bs = c" by simp
    from punct(3) have "\<not> ident_start c" and "\<not> word_char uni c" by auto
    with l be have "\<not> ident_start (line ! bs)" and "\<not> word_char uni (line ! (be - 1))"
      by simp_all
    with at_word_start_after[OF pos] punct show ?thesis by simp
  qed
qed


lemma lexed_Str_EOL [simp]: "lexed (StrPiece PIECE_EOL p [NL])"
  by (simp add: lexed_def keyword_def NL_def)

lemma lexed_Substr:
  assumes "c < length line" and "0 < n"
    and "k = PIECE_IDENTIFIER \<or> k = PIECE_COMMENT \<or> \<not> ident_start (line ! c)"
  shows "lexed (SubstrPiece k (Position ln fnm (Some c)) n line)"
proof (cases "k = PIECE_IDENTIFIER \<or> k = PIECE_COMMENT")
  case True
  then show ?thesis by (auto simp: lexed_def)
next
  case False
  with assms(3) have ni: "\<not> ident_start (line ! c)" by simp
  obtain n' where n: "n = Suc n'" using assms(2) by (cases n) auto
  have "hd (take n (drop c line)) = line ! c"
    using assms(1) unfolding n by (simp add: hd_drop_conv_nth)
  with ni keyword_start[of "take n (drop c line)"] have "\<not> keyword (take n (drop c line))"
    by auto
  with False show ?thesis by (simp add: lexed_def)
qed

lemma comment_entries:
  "(pat, lit, k) \<in> set entries \<Longrightarrow> lit = Some ''/*'' \<or> lit = Some ''//'' \<Longrightarrow> k = PIECE_COMMENT"
  by (auto simp: entries_def)

lemma lexed_comment [simp]: "lexed (SubstrPiece PIECE_COMMENT p n line)"
  by (simp add: lexed_def)

lemma token_step_lexed:
  assumes c: "col < length line"
    and inv: "at_word_start uni line col"
    and st: "token_step uni fnm ln line col cm = (ps, col', cm')"
  shows "at_word_start uni line col' \<and> list_all lexed ps
           \<and> list_all (\<lambda>p. kind p \<noteq> PIECE_EOF) ps"
proof (cases "line ! col = NL")
  case True
  with st have "ps = [StrPiece PIECE_EOL (Position ln fnm (Some col)) [NL]]" and "col' = col + 1"
    by (auto simp: token_step_def)
  moreover have "at_word_start uni line (col + 1)"
    by (rule at_word_start_after) (simp_all add: True)
  ultimately show ?thesis by simp
next
  case nl: False
  note le = line_end_gt[OF c nl]
  show ?thesis
  proof (cases cm)
    case True
    obtain en eoc where f: "find_end_of_block_comment_piece line col = (en, eoc)"
      by (cases "find_end_of_block_comment_piece line col")
    from st nl True f have "ps = [SubstrPiece PIECE_COMMENT (Position ln fnm (Some col)) (en - col) line]"
      and "col' = en"
      by (auto simp: token_step_def)
    with at_word_start_block_end[OF f] show ?thesis by simp
  next
    case False
    have text_ok: "lexed (SubstrPiece PIECE_TEXT (Position ln fnm (Some col)) n line)"
      if n: "0 < n" and nb: "\<forall>ent be. find_best uni line col entries None \<noteq> Some (ent, col, be)"
      for n
    proof (rule lexed_Substr[OF c n])
      have "\<not> ident_start (line ! col)"
        using find_best_at_word_start[OF c _ inv] nb by blast
      then show "PIECE_TEXT = PIECE_IDENTIFIER \<or> PIECE_TEXT = PIECE_COMMENT \<or> \<not> ident_start (line ! col)"
        by simp
    qed
    show ?thesis
    proof (cases "find_best uni line col entries None")
      case None
      with st nl False have "ps = [SubstrPiece PIECE_TEXT (Position ln fnm (Some col)) (line_end line - col) line]"
        and "col' = line_end line"
        by (auto simp: token_step_def)
      moreover have "lexed (SubstrPiece PIECE_TEXT (Position ln fnm (Some col)) (line_end line - col) line)"
        by (rule text_ok) (use le None in simp_all)
      ultimately show ?thesis by (simp add: at_word_start_line_end)
    next
      case (Some b)
      obtain pat lit k bs be where b: "b = ((pat, lit, k), bs, be)"
        by (cases b) auto
      from find_best_entries[OF Some[unfolded b]]
      have bnd: "col \<le> bs" "bs < be" "be \<le> length line"
        and es: "entry_search uni line col (pat, lit, k) = Some (bs, be)"
        and mem: "(pat, lit, k) \<in> set entries"
        by auto
      note ec = entry_chars[OF mem es]
      have col1: "(if col < bs then bs else col) = bs" using bnd by auto
      define before where "before = (if bs > col
          then [SubstrPiece PIECE_TEXT (Position ln fnm (Some col)) (bs - col) line] else [])"
      have before: "list_all lexed before \<and> list_all (\<lambda>p. kind p \<noteq> PIECE_EOF) before"
      proof (cases "bs > col")
        case True
        have "lexed (SubstrPiece PIECE_TEXT (Position ln fnm (Some col)) (bs - col) line)"
          by (rule text_ok) (use True Some b in auto)
        with True show ?thesis by (simp add: before_def)
      next
        case False
        then show ?thesis by (simp add: before_def)
      qed
      show ?thesis
      proof (cases "lit = Some ''/*''")
        case True
        obtain en eoc where f: "find_end_of_block_comment_piece line (bs + 2) = (en, eoc)"
          by (cases "find_end_of_block_comment_piece line (bs + 2)")
        have "ps = before @ [SubstrPiece PIECE_COMMENT (Position ln fnm (Some bs)) (en - bs) line]"
          and "col' = en"
          using st nl \<open>\<not> cm\<close> Some b True f bnd
          by (auto simp: token_step_def before_def Let_def col1)
        with at_word_start_block_end[OF f] before show ?thesis by simp
      next
        case nbc: False
        show ?thesis
        proof (cases "lit = Some ''//''")
          case True
          from comment_entries[OF mem] True have k: "k = PIECE_COMMENT" by simp
          have "ps = before @ [SubstrPiece k (Position ln fnm (Some bs)) (line_end line - bs) line]"
            and "col' = line_end line"
            using st nl \<open>\<not> cm\<close> Some b True bnd
            by (auto simp: token_step_def before_def Let_def col1)
          with before k show ?thesis by (simp add: at_word_start_line_end)
        next
          case False
          have ps: "ps = before @ [SubstrPiece k (Position ln fnm (Some bs)) (be - bs) line]"
            and "col' = be"
            using st nl \<open>\<not> cm\<close> Some b False nbc bnd
            by (auto simp: token_step_def before_def Let_def col1)
          moreover have "lexed (SubstrPiece k (Position ln fnm (Some bs)) (be - bs) line)"
            by (rule lexed_Substr) (use bnd ec in auto)
          moreover have "at_word_start uni line be" using ec False nbc by blast
          ultimately show ?thesis using before ec by simp
        qed
      qed
    qed
  qed
qed

lemma tokenize_line_lexed:
  "at_word_start uni line col \<Longrightarrow>
     list_all lexed (fst (tokenize_line uni fnm ln line col cm))
     \<and> list_all (\<lambda>p. kind p \<noteq> PIECE_EOF) (fst (tokenize_line uni fnm ln line col cm))"
proof (induction uni fnm ln line col cm rule: tokenize_line.induct)
  case (1 uni fnm ln line col cm)
  show ?case
  proof (cases "col < length line")
    case False
    then show ?thesis by (simp add: tokenize_line.simps)
  next
    case True
    obtain ps col' cm' where st: "token_step uni fnm ln line col cm = (ps, col', cm')"
      by (cases "token_step uni fnm ln line col cm")
    obtain rest cme where r: "tokenize_line uni fnm ln line col' cm' = (rest, cme)"
      by (cases "tokenize_line uni fnm ln line col' cm'")
    from token_step_lexed[OF True "1.prems" st]
    have i: "at_word_start uni line col'" and p: "list_all lexed ps"
      "list_all (\<lambda>p. kind p \<noteq> PIECE_EOF) ps" by auto
    from "1.IH"[OF True st[symmetric] refl i] r
    have "list_all lexed rest \<and> list_all (\<lambda>p. kind p \<noteq> PIECE_EOF) rest" by simp
    with p True st r show ?thesis by (simp add: tokenize_line.simps)
  qed
qed

lemma at_word_start_0: "at_word_start uni line 0"
  by (simp add: at_word_start_def)

lemma tokenize_lines_lexed:
  "\<exists>qs eof. tokenize_lines uni fnm ln lns cm = qs @ [eof]
      \<and> list_all lexed qs \<and> list_all (\<lambda>p. kind p \<noteq> PIECE_EOF) qs
      \<and> kind eof = PIECE_EOF \<and> lexed eof \<and> pieces_text qs = concat lns"
proof (induction lns arbitrary: ln cm)
  case Nil
  show ?case by (simp add: pieces_text_def lexed_def keyword_def)
next
  case (Cons line lns)
  obtain ps cm' where l: "tokenize_line uni fnm ln line 0 cm = (ps, cm')"
    by (cases "tokenize_line uni fnm ln line 0 cm")
  from tokenize_line_text[of uni fnm ln line 0 cm] l have t: "pieces_text ps = line" by simp
  from tokenize_line_lexed[where col = 0 and uni = uni and line = line and fnm = fnm
      and ln = ln and cm = cm, OF at_word_start_0] l
  have p: "list_all lexed ps" "list_all (\<lambda>p. kind p \<noteq> PIECE_EOF) ps" by simp_all
  from Cons.IH[of "ln + 1" cm'] obtain qs eof where
    q: "tokenize_lines uni fnm (ln + 1) lns cm' = qs @ [eof]"
    and qp: "list_all lexed qs" "list_all (\<lambda>p. kind p \<noteq> PIECE_EOF) qs"
      "kind eof = PIECE_EOF" "lexed eof" "pieces_text qs = concat lns"
    by blast
  have "tokenize_lines uni fnm ln (line # lns) cm = (ps @ qs) @ [eof]" using l q by simp
  moreover have "pieces_text (ps @ qs) = concat (line # lns)"
    using t qp(5) by (simp add: pieces_text_def)
  ultimately show ?case using p qp by (intro exI[of _ "ps @ qs"] exI[of _ eof]) simp
qed

section \<open>The recognizer selects by kind and text\<close>

lemma tokenize_lexed:
  assumes "tokenize uni fs fnm = Inr ps"
  shows "\<exists>qs eof s. ps = qs @ [eof] \<and> fs fnm = Some s
      \<and> list_all lexed qs \<and> list_all (\<lambda>p. kind p \<noteq> PIECE_EOF) qs
      \<and> kind eof = PIECE_EOF \<and> lexed eof \<and> pieces_text qs = s"
proof -
  from assms obtain s where f: "fs fnm = Some s"
    and ps: "ps = tokenize_lines uni fnm 1 (split_lines [] s) False"
    by (auto simp: tokenize_def line_stream_file_def split: option.splits)
  from tokenize_lines_lexed[of uni fnm 1 "split_lines [] s" False] ps f
  show ?thesis by (auto simp: split_lines_text)
qed

lemma find_holds: "find P xs = Some x \<Longrightarrow> P x"
  by (induction xs) (auto split: if_splits)

lemma find_kind_text:
  "find (kind_text_matches piece) edges = Some e \<Longrightarrow>
     edge_kind e = kind piece \<and> (edge_text e = None \<or> edge_text e = Some (get_text piece))"
  by (drule find_holds) (auto simp: kind_text_matches_def split: option.splits)

lemma lexed_texts:
  "lexed p \<Longrightarrow> kind p \<noteq> PIECE_IDENTIFIER \<Longrightarrow> kind p \<noteq> PIECE_COMMENT \<Longrightarrow>
     ''define'' \<noteq> get_text p \<and> ''include'' \<noteq> get_text p \<and> ''endmacro'' \<noteq> get_text p"
  by (auto simp: lexed_def keyword_def)

lemma states_agree:
  assumes "lexed piece"
  shows "list_all (\<lambda>s. agrees piece (state_edges s)) STATES"
proof (cases "kind piece = PIECE_IDENTIFIER \<or> kind piece = PIECE_COMMENT")
  case True
  then show ?thesis
    by (auto simp: STATES_def agrees_def select_edge_def edge_matches_def kind_text_matches_def)
next
  case False
  with lexed_texts[OF assms] have t: "''define'' \<noteq> get_text piece"
    "''include'' \<noteq> get_text piece" "''endmacro'' \<noteq> get_text piece" by auto
  from False show ?thesis
    by (cases "kind piece";
        simp add: STATES_def agrees_def select_edge_def edge_matches_def kind_text_matches_def t)
qed



lemma states_edges_nonempty: "MatchState n ex edges \<in> set STATES \<Longrightarrow> edges \<noteq> []"
  by (auto simp: STATES_def)

lemma available_states_member: "available_states k = Some s \<Longrightarrow> s \<in> set STATES"
  by (auto simp: available_states_def dest!: map_of_SomeD)

text \<open>
  C8. For every piece of the stream the lexer produces for a file, and every
  \<^verbatim>\<open>MatchState\<close> of the table, an edge is selected, and the edge selected by the test of
  \<^verbatim>\<open>match_sequence\<close> is the first edge of the list of the state that matches the piece by
  kind and optional text: its kind is the kind of the piece, and its text, if it has one,
  is the text of the piece.
\<close>

theorem C8_first_matching_edge:
  assumes "tokenize uni fs fnm = Inr stream" and "piece \<in> set stream"
    and "available_states k = Some (MatchState n ex edges)"
  shows "\<exists>e. select_edge edges piece = Some e
           \<and> find (kind_text_matches piece) edges = Some e
           \<and> edge_kind e = kind piece
           \<and> (edge_text e = None \<or> edge_text e = Some (get_text piece))"
proof -
  from tokenize_lexed[OF assms(1)] assms(2) have l: "lexed piece"
    by (auto simp: list_all_iff)
  from available_states_member[OF assms(3)] have s: "MatchState n ex edges \<in> set STATES" .
  from states_agree[OF l] s have "agrees piece (state_edges (MatchState n ex edges))"
    unfolding list_all_iff by blast
  then have "agrees piece edges" by simp
  with states_edges_nonempty[OF s]
  have eq: "select_edge edges piece = find (kind_text_matches piece) edges"
    and "select_edge edges piece \<noteq> None"
    unfolding agrees_def by blast+
  then obtain e where
    e: "select_edge edges piece = Some e" "find (kind_text_matches piece) edges = Some e"
    by (metis not_Some_eq)
  from find_kind_text[OF e(2)] e show ?thesis by blast
qed


text \<open>
  The witness is the first piece of a file that starts with \<^verbatim>\<open>define\<close>, in the state the
  machine starts in: the edge taken is the Identifier edge with the text \<^verbatim>\<open>define\<close>, the
  fifth of the list.
\<close>

theorem C8_first_matching_edge_witness:
  "\<exists>e. select_edge (state_edges (the (available_states STATE1)))
          (SubstrPiece PIECE_IDENTIFIER (Position 1 (Some ''f'') (Some 0)) 6 ''define x'') = Some e
       \<and> find (kind_text_matches
                 (SubstrPiece PIECE_IDENTIFIER (Position 1 (Some ''f'') (Some 0)) 6 ''define x''))
            (state_edges (the (available_states STATE1))) = Some e
       \<and> e = Edge PIECE_IDENTIFIER (Some ''define'') (Some STATE11) (Some ACT_DEFINE)
               (Some STORE_POSITION)"
proof -
  let ?p = "SubstrPiece PIECE_IDENTIFIER (Position 1 (Some ''f'') (Some 0)) 6 ''define x''"
  have t: "tokenize ascii_only (one_file ''f'' ''define x'') (Some ''f'')
             = Inr [?p,
                    SubstrPiece PIECE_SPACES (Position 1 (Some ''f'') (Some 6)) 1 ''define x'',
                    SubstrPiece PIECE_IDENTIFIER (Position 1 (Some ''f'') (Some 7)) 1 ''define x'',
                    StrPiece PIECE_EOF (Position 2 (Some ''f'') (Some 0)) ''EOF-EOF-EOF'']"
    by code_simp
  have m: "?p \<in> set [?p,
                    SubstrPiece PIECE_SPACES (Position 1 (Some ''f'') (Some 6)) 1 ''define x'',
                    SubstrPiece PIECE_IDENTIFIER (Position 1 (Some ''f'') (Some 7)) 1 ''define x'',
                    StrPiece PIECE_EOF (Position 2 (Some ''f'') (Some 0)) ''EOF-EOF-EOF'']"
    by simp
  have a: "available_states STATE1
             = Some (MatchState STATE1 EXP_NONE (state_edges (the (available_states STATE1))))"
    by (simp add: available_states_def STATES_def)
  from C8_first_matching_edge[OF t m a] obtain e where
    e: "select_edge (state_edges (the (available_states STATE1))) ?p = Some e"
       "find (kind_text_matches ?p) (state_edges (the (available_states STATE1))) = Some e"
    by blast
  have "select_edge (state_edges (the (available_states STATE1))) ?p
          = Some (Edge PIECE_IDENTIFIER (Some ''define'') (Some STATE11) (Some ACT_DEFINE)
               (Some STORE_POSITION))"
    by (simp add: available_states_def STATES_def select_edge_def edge_matches_def)
  with e show ?thesis by simp
qed

end
